theory Spec2Isabelle
  imports Complex_Main "HOL-Library.Sublist"
begin

section \<open>JavaScript values read by the rate-limit directive\<close>

text \<open>
  A JavaScript \<^verbatim>\<open>number\<close>, as far as \<^verbatim>\<open>directive.ts\<close> looks at one:
  \<^item> \<open>JInt i\<close> is the integer-valued number \<open>i\<close> (\<^verbatim>\<open>Number.isInteger\<close> holds);
  \<^item> \<open>JFrac neg w ds\<close> is a finite number with a fractional part, written in plain
    decimal notation: sign, whole part, and the digits after the point;
  \<^item> \<open>JNaN\<close>, \<open>JInfinity\<close>, \<open>JNegInfinity\<close> are the three non-finite numbers.
  Arithmetic on \<open>JInt\<close> is exact (true of JavaScript below \<open>2^53\<close>); division of a
  \<open>JFrac\<close> is taken exactly as well, without binary rounding.
\<close>

datatype js_number =
    JInt int
  | JFrac bool nat "nat list"
  | JNaN
  | JInfinity
  | JNegInfinity

fun Number_isInteger :: "js_number \<Rightarrow> bool" where
  "Number_isInteger (JInt i) = True"
| "Number_isInteger (JFrac neg w ds) = False"
| "Number_isInteger JNaN = False"
| "Number_isInteger JInfinity = False"
| "Number_isInteger JNegInfinity = False"

text \<open>\<^verbatim>\<open>n <= c\<close> and \<^verbatim>\<open>n > c\<close> against an integer literal \<open>c\<close>; every
  comparison with \<^verbatim>\<open>NaN\<close> is false.\<close>

fun js_le :: "js_number \<Rightarrow> int \<Rightarrow> bool" where
  "js_le (JInt i) c = (i \<le> c)"
| "js_le (JFrac neg w ds) c = (if neg then - int w \<le> c else int w < c)"
| "js_le JNaN c = False"
| "js_le JInfinity c = False"
| "js_le JNegInfinity c = True"

fun js_gt :: "js_number \<Rightarrow> int \<Rightarrow> bool" where
  "js_gt (JInt i) c = (i > c)"
| "js_gt (JFrac neg w ds) c = (if neg then - int w > c else int w \<ge> c)"
| "js_gt JNaN c = False"
| "js_gt JInfinity c = True"
| "js_gt JNegInfinity c = False"

text \<open>The value of a finite number. The digits after the point are read modulo 10, as
  they are printed.\<close>

fun frac_value :: "nat list \<Rightarrow> real" where
  "frac_value [] = 0"
| "frac_value (d # ds) = (real (d mod 10) + frac_value ds) / 10"

fun number_value :: "js_number \<Rightarrow> real" where
  "number_value (JInt i) = real_of_int i"
| "number_value (JFrac neg w ds) =
     (if neg then - (real w + frac_value ds) else real w + frac_value ds)"
| "number_value JNaN = 0"
| "number_value JInfinity = 0"
| "number_value JNegInfinity = 0"

text \<open>\<^verbatim>\<open>Math.ceil(n / 1000)\<close>, computed on the digits: \<^verbatim>\<open>NaN\<close> and the infinities
  are returned as they are.\<close>

fun ceil_div_1000 :: "js_number \<Rightarrow> js_number" where
  "ceil_div_1000 (JInt i) = JInt (- ((- i) div 1000))"
| "ceil_div_1000 (JFrac neg w ds) =
     (if neg then JInt (- (int w div 1000))
      else if list_all (\<lambda>d. d mod 10 = 0) ds then JInt (- ((- int w) div 1000))
      else JInt (int w div 1000 + 1))"
| "ceil_div_1000 JNaN = JNaN"
| "ceil_div_1000 JInfinity = JInfinity"
| "ceil_div_1000 JNegInfinity = JNegInfinity"

subsection \<open>Template literals: numbers as text\<close>

definition digit_char :: "nat \<Rightarrow> char" where
  "digit_char d = ''0123456789'' ! (d mod 10)"

fun show_nat :: "nat \<Rightarrow> string" where
  "show_nat n = (if n < 10 then [digit_char n] else show_nat (n div 10) @ [digit_char (n mod 10)])"

declare show_nat.simps [simp del]

text \<open>\<^verbatim>\<open>`${n}`\<close> for a number \<open>n\<close>. (A number of magnitude \<open>10^21\<close> or more, or
  below \<open>10^-6\<close>, is printed by JavaScript in exponent notation; here all its digits
  are written.)\<close>

fun number_to_string :: "js_number \<Rightarrow> string" where
  "number_to_string (JInt i) =
     (if i < 0 then ''-'' @ show_nat (nat (- i)) else show_nat (nat i))"
| "number_to_string (JFrac neg w ds) =
     (if neg then ''-'' else '''') @ show_nat w @ ''.'' @ map digit_char ds"
| "number_to_string JNaN = ''NaN''"
| "number_to_string JInfinity = ''Infinity''"
| "number_to_string JNegInfinity = ''-Infinity''"

text \<open>\<^verbatim>\<open>s.includes(needle)\<close>: \<open>needle\<close> occurs in \<open>s\<close> as a contiguous run.\<close>

definition str_includes :: "string \<Rightarrow> string \<Rightarrow> bool" where
  "str_includes s needle = sublist needle s"

text \<open>\<^verbatim>\<open>parts.join(sep)\<close>.\<close>

fun join :: "string list \<Rightarrow> string \<Rightarrow> string" where
  "join [] sep = ''''"
| "join [p] sep = p"
| "join (p # q # ps) sep = p @ sep @ join (q # ps) sep"

section \<open>types.ts: directive arguments and key generators\<close>

record RateLimitDirectiveArgs =
  duration :: js_number
  limit :: js_number

text \<open>The two fields of \<^verbatim>\<open>GraphQLResolveInfo\<close> that the key generators read:
  \<^verbatim>\<open>info.parentType.name\<close> and \<^verbatim>\<open>info.fieldName\<close>.\<close>

record GraphQLResolveInfo =
  parentType_name :: string
  fieldName :: string

definition defaultKeyGenerator ::
  "RateLimitDirectiveArgs \<Rightarrow> 'src \<Rightarrow> 'rargs \<Rightarrow> 'ctx \<Rightarrow> GraphQLResolveInfo \<Rightarrow> string" where
  "defaultKeyGenerator directiveArgs source rargs context info =
     parentType_name info @ ''.'' @ fieldName info"

text \<open>A value of type \<^verbatim>\<open>string | null | undefined\<close>.\<close>

datatype js_string_opt = JNull | JUndefined | JStr string

text \<open>\<^verbatim>\<open>`${v}`\<close>.\<close>

fun to_text :: "js_string_opt \<Rightarrow> string" where
  "to_text JNull = ''null''"
| "to_text JUndefined = ''undefined''"
| "to_text (JStr s) = s"

text \<open>\<^verbatim>\<open>v || d\<close>: \<^verbatim>\<open>null\<close>, \<^verbatim>\<open>undefined\<close> and the empty string are falsy.\<close>

fun or_default :: "js_string_opt \<Rightarrow> string \<Rightarrow> string" where
  "or_default JNull d = d"
| "or_default JUndefined d = d"
| "or_default (JStr s) d = (if s = [] then d else s)"

text \<open>\<^verbatim>\<open>value != null\<close> is false for \<^verbatim>\<open>null\<close> and for \<^verbatim>\<open>undefined\<close>.\<close>

fun not_nullish :: "js_string_opt \<Rightarrow> bool" where
  "not_nullish JNull = False"
| "not_nullish JUndefined = False"
| "not_nullish (JStr s) = True"

definition createUserKeyGenerator ::
  "('ctx \<Rightarrow> js_string_opt) \<Rightarrow>
   RateLimitDirectiveArgs \<Rightarrow> 'src \<Rightarrow> 'rargs \<Rightarrow> 'ctx \<Rightarrow> GraphQLResolveInfo \<Rightarrow> string" where
  "createUserKeyGenerator getUserId directiveArgs source rargs context info =
     (let userId = or_default (getUserId context) ''anonymous''
      in ''user:'' @ userId @ '':'' @ parentType_name info @ ''.'' @ fieldName info)"

definition createIPKeyGenerator ::
  "('ctx \<Rightarrow> js_string_opt) \<Rightarrow>
   RateLimitDirectiveArgs \<Rightarrow> 'src \<Rightarrow> 'rargs \<Rightarrow> 'ctx \<Rightarrow> GraphQLResolveInfo \<Rightarrow> string" where
  "createIPKeyGenerator getIP directiveArgs source rargs context info =
     (let ip = or_default (getIP context) ''unknown''
      in ''ip:'' @ ip @ '':'' @ parentType_name info @ ''.'' @ fieldName info)"

text \<open>\<^verbatim>\<open>getIdentifiers(context)\<close> returns a record of named identifiers; the list is
  its \<^verbatim>\<open>Object.entries\<close>, in that order.\<close>

definition identifierParts :: "(string \<times> js_string_opt) list \<Rightarrow> string" where
  "identifierParts identifiers =
     join (map (\<lambda>(key, v). key @ '':'' @ to_text v)
            (filter (\<lambda>(key, v). not_nullish v) identifiers)) '':''"

definition createCompositeKeyGenerator ::
  "('ctx \<Rightarrow> (string \<times> js_string_opt) list) \<Rightarrow>
   RateLimitDirectiveArgs \<Rightarrow> 'src \<Rightarrow> 'rargs \<Rightarrow> 'ctx \<Rightarrow> GraphQLResolveInfo \<Rightarrow> string" where
  "createCompositeKeyGenerator getIdentifiers directiveArgs source rargs context info =
     (let identifiers = getIdentifiers context
      in identifierParts identifiers @ '':'' @ parentType_name info @ ''.'' @ fieldName info)"

section \<open>directive.ts: what can be thrown\<close>

text \<open>
  JavaScript data: \<^verbatim>\<open>undefined\<close>, \<^verbatim>\<open>null\<close>, booleans, numbers, strings, arrays, and
  objects as their own properties in insertion order. Functions and accessor properties
  are not among these values.
\<close>

datatype js_value =
    VUndefined
  | VNull
  | VBoolean bool
  | VNumber js_number
  | VString string
  | VArray "js_value list"
  | VObject "(string \<times> js_value) list"

type_synonym js_object = "(string \<times> js_value) list"

text \<open>
  A thrown value (or promise rejection), as far as the wrapped resolver inspects one:
  \<^item> \<open>Error m\<close>: \<^verbatim>\<open>new Error(m)\<close>, or any error object with the string message \<open>m\<close>
    and no \<^verbatim>\<open>msBeforeNext\<close>;
  \<^item> \<open>GraphQLError m ext\<close>: \<^verbatim>\<open>new GraphQLError(m, { extensions: ext })\<close>;
  \<^item> \<open>Rejection message msBeforeNext\<close>: any other value that is not \<^verbatim>\<open>null\<close> or
    \<^verbatim>\<open>undefined\<close>, given by its properties \<^verbatim>\<open>message\<close> and \<^verbatim>\<open>msBeforeNext\<close>
    (\<open>VUndefined\<close> for a property it does not have);
  \<^item> \<open>Nullish\<close>: \<^verbatim>\<open>null\<close> or \<^verbatim>\<open>undefined\<close>;
  \<^item> \<open>TypeError\<close>: the error JavaScript raises for reading a property of \<^verbatim>\<open>null\<close> or
    \<^verbatim>\<open>undefined\<close> and for calling what is not a function.
\<close>

datatype thrown =
    Error string
  | GraphQLError string js_object
  | Rejection js_value js_value
  | Nullish
  | TypeError

text \<open>\<^verbatim>\<open>typeof v === "number"\<close>, with the number when it holds.\<close>

fun as_number :: "js_value \<Rightarrow> js_number option" where
  "as_number (VNumber n) = Some n"
| "as_number VUndefined = None"
| "as_number VNull = None"
| "as_number (VBoolean b) = None"
| "as_number (VString s) = None"
| "as_number (VArray xs) = None"
| "as_number (VObject props) = None"

text \<open>\<^verbatim>\<open>e && typeof e.msBeforeNext === "number"\<close>, with the number when it holds.\<close>

fun numeric_msBeforeNext :: "thrown \<Rightarrow> js_number option" where
  "numeric_msBeforeNext (Rejection message msBeforeNext) = as_number msBeforeNext"
| "numeric_msBeforeNext (Error m) = None"
| "numeric_msBeforeNext (GraphQLError m ext) = None"
| "numeric_msBeforeNext Nullish = None"
| "numeric_msBeforeNext TypeError = None"

text \<open>
  \<^verbatim>\<open>v?.includes(needle)\<close>, as truthy or falsy: \<^verbatim>\<open>undefined\<close> (falsy) for a \<open>v\<close> that
  is \<^verbatim>\<open>undefined\<close> or \<^verbatim>\<open>null\<close>, the substring test of a string, the membership test
  of an array, and a \<^verbatim>\<open>TypeError\<close> for every other value, which has no such method.
\<close>

fun optional_includes :: "js_value \<Rightarrow> string \<Rightarrow> thrown + bool" where
  "optional_includes VUndefined needle = Inr False"
| "optional_includes VNull needle = Inr False"
| "optional_includes (VString s) needle = Inr (str_includes s needle)"
| "optional_includes (VArray xs) needle = Inr (VString needle \<in> set xs)"
| "optional_includes (VBoolean b) needle = Inl TypeError"
| "optional_includes (VNumber n) needle = Inl TypeError"
| "optional_includes (VObject props) needle = Inl TypeError"

text \<open>\<^verbatim>\<open>e.message?.includes(needle)\<close>. Reading \<^verbatim>\<open>.message\<close> of \<^verbatim>\<open>null\<close> or
  \<^verbatim>\<open>undefined\<close> throws; the text of the engine's own \<^verbatim>\<open>TypeError\<close> does not hold the
  needle.\<close>

fun message_includes :: "thrown \<Rightarrow> string \<Rightarrow> thrown + bool" where
  "message_includes (Error m) needle = Inr (str_includes m needle)"
| "message_includes (GraphQLError m ext) needle = Inr (str_includes m needle)"
| "message_includes (Rejection message msBeforeNext) needle = optional_includes message needle"
| "message_includes Nullish needle = Inl TypeError"
| "message_includes TypeError needle = Inr False"

section \<open>directive.ts: validateDirectiveArgs\<close>

definition validateDirectiveArgs :: "RateLimitDirectiveArgs \<Rightarrow> thrown + unit" where
  "validateDirectiveArgs args =
     (if \<not> Number_isInteger (limit args) \<or> js_le (limit args) 0 then
        Inl (Error (''Invalid rate limit: '' @ number_to_string (limit args)
                      @ ''. Must be a positive integer.''))
      else if \<not> Number_isInteger (duration args) \<or> js_le (duration args) 0 then
        Inl (Error (''Invalid duration: '' @ number_to_string (duration args)
                      @ ''. Must be a positive integer (seconds).''))
      else if js_gt (duration args) 31536000 then
        Inl (Error (''Invalid duration: '' @ number_to_string (duration args)
                      @ ''. Maximum allowed is 31536000 seconds (1 year).''))
      else if js_gt (limit args) 1000000 then
        Inl (Error (''Invalid limit: '' @ number_to_string (limit args)
                      @ ''. Maximum allowed is 1000000.''))
      else Inr ())"

section \<open>directive.ts: the limiter cache and getLimiter\<close>

definition MAX_LIMITER_CACHE_SIZE :: nat where
  "MAX_LIMITER_CACHE_SIZE = 100"

text \<open>
  A limiter object made by \<^verbatim>\<open>new limiterClass({ duration, points, ...limiterOptions })\<close>.
  \<open>ident\<close> is the object's identity: the \<open>n\<close>-th object constructed by one directive
  has identity \<open>n\<close>. \<^verbatim>\<open>limiterOptions\<close> is declared to hold the store client only,
  which is the same for every limiter of a directive and is left out. Construction
  is taken to succeed: the limiter class stores its options and contacts no store.
\<close>

record RateLimiterRedis =
  ident :: nat
  opt_duration :: js_number
  opt_points :: js_number

text \<open>A JavaScript \<^verbatim>\<open>Map\<close> with string keys: its entries in insertion order.\<close>

type_synonym 'v js_map = "(string \<times> 'v) list"

text \<open>\<^verbatim>\<open>m.has(k)\<close> followed by \<^verbatim>\<open>m.get(k)!\<close>: the value under \<open>k\<close>, \<open>None\<close> when
  the map has no such key.\<close>

definition Map_get :: "'v js_map \<Rightarrow> string \<Rightarrow> 'v option" where
  "Map_get m k = map_of m k"

fun Map_delete :: "'v js_map \<Rightarrow> string \<Rightarrow> 'v js_map" where
  "Map_delete [] k = []"
| "Map_delete ((k', v) # m) k = (if k' = k then Map_delete m k else (k', v) # Map_delete m k)"

fun Map_set :: "'v js_map \<Rightarrow> string \<Rightarrow> 'v \<Rightarrow> 'v js_map" where
  "Map_set [] k v = [(k, v)]"
| "Map_set ((k', v') # m) k v = (if k' = k then (k, v) # m else (k', v') # Map_set m k v)"

definition Map_size :: "'v js_map \<Rightarrow> nat" where
  "Map_size m = length m"

text \<open>\<^verbatim>\<open>m.keys().next().value\<close>: the first key, \<^verbatim>\<open>undefined\<close> for an empty map.\<close>

fun Map_first_key :: "'v js_map \<Rightarrow> string option" where
  "Map_first_key [] = None"
| "Map_first_key ((k, v) # m) = Some k"

text \<open>The state one \<^verbatim>\<open>createRateLimitDirective\<close> call closes over: the cache, and
  how many limiter objects it has constructed so far.\<close>

record directive_state =
  limiterCache :: "RateLimiterRedis js_map"
  constructed :: nat

definition initial_state :: directive_state where
  "initial_state = \<lparr>limiterCache = [], constructed = 0\<rparr>"

definition cacheKey :: "RateLimitDirectiveArgs \<Rightarrow> string" where
  "cacheKey args = number_to_string (duration args) @ '':'' @ number_to_string (limit args)"

text \<open>\<^verbatim>\<open>if (oldestKey) limiterCache.delete(oldestKey)\<close>: \<^verbatim>\<open>undefined\<close> and the empty
  string are falsy.\<close>

definition evict_oldest :: "'v js_map \<Rightarrow> 'v js_map" where
  "evict_oldest m =
     (case Map_first_key m of
        None \<Rightarrow> m
      | Some oldestKey \<Rightarrow> if oldestKey \<noteq> [] then Map_delete m oldestKey else m)"

definition getLimiter ::
  "RateLimitDirectiveArgs \<Rightarrow> directive_state \<Rightarrow> (thrown + RateLimiterRedis) \<times> directive_state" where
  "getLimiter args st =
     (case validateDirectiveArgs args of
        Inl e \<Rightarrow> (Inl e, st)
      | Inr u \<Rightarrow>
          (case Map_get (limiterCache st) (cacheKey args) of
             Some limiter \<Rightarrow>
               (Inr limiter,
                st\<lparr>limiterCache :=
                     Map_set (Map_delete (limiterCache st) (cacheKey args)) (cacheKey args) limiter\<rparr>)
           | None \<Rightarrow>
               (let cache1 = (if Map_size (limiterCache st) \<ge> MAX_LIMITER_CACHE_SIZE
                              then evict_oldest (limiterCache st) else limiterCache st);
                    limiter = \<lparr>ident = constructed st,
                               opt_duration = duration args, opt_points = limit args\<rparr>
                in (Inr limiter,
                    \<lparr>limiterCache = Map_set cache1 (cacheKey args) limiter,
                     constructed = Suc (constructed st)\<rparr>))))"

section \<open>directive.ts: the wrapped resolver\<close>

text \<open>What the original resolver does when called: return a value (or a promise that
  resolves), throw synchronously, or return a promise that rejects.\<close>

datatype 'r resolve_result = Returns 'r | Throws thrown | Rejects thrown

text \<open>The calls one invocation of the wrapped resolver makes, in order.\<close>

datatype call = KeyGeneratorCall | ConsumeCall nat string | ResolveCall

definition quota_exceeded :: "js_number \<Rightarrow> thrown" where
  "quota_exceeded ms =
     GraphQLError ''Rate limit exceeded''
       [(''code'', VString ''RATE_LIMITED''),
        (''http'', VObject [(''status'', VNumber (JInt 429))]),
        (''retryAfter'', VNumber (ceil_div_1000 ms))]"

definition service_unavailable :: thrown where
  "service_unavailable =
     GraphQLError ''Rate limiting service unavailable''
       [(''code'', VString ''RATE_LIMIT_SERVICE_ERROR''),
        (''http'', VObject [(''status'', VNumber (JInt 503))])]"

text \<open>The inner \<^verbatim>\<open>catch (rateLimitError)\<close>: what it throws.\<close>

definition consume_catch :: "thrown \<Rightarrow> thrown" where
  "consume_catch rateLimitError =
     (case numeric_msBeforeNext rateLimitError of
        Some ms \<Rightarrow> quota_exceeded ms
      | None \<Rightarrow> rateLimitError)"

text \<open>The outer \<^verbatim>\<open>catch (error)\<close>: what it throws.\<close>

definition resolve_catch :: "thrown \<Rightarrow> thrown" where
  "resolve_catch error =
     (case message_includes error ''Redis'' of
        Inl typeError \<Rightarrow> typeError
      | Inr found \<Rightarrow> if found then service_unavailable else error)"

text \<open>
  \<^verbatim>\<open>fieldConfig.resolve\<close> of a field that carries the directive with arguments \<open>args\<close>.
  \<open>keyGenerator\<close>, \<open>consume\<close> (the limiter's method, awaited) and \<open>resolve\<close> (the
  original resolver, returned without \<^verbatim>\<open>await\<close>) are the collaborators. The result
  is how the returned promise settles, the calls made, and the new state.
\<close>

definition fieldConfig_resolve ::
  "(RateLimitDirectiveArgs \<Rightarrow> 'src \<Rightarrow> 'rargs \<Rightarrow> 'ctx \<Rightarrow> GraphQLResolveInfo \<Rightarrow> thrown + string) \<Rightarrow>
   (RateLimiterRedis \<Rightarrow> string \<Rightarrow> thrown + unit) \<Rightarrow>
   ('src \<Rightarrow> 'rargs \<Rightarrow> 'ctx \<Rightarrow> GraphQLResolveInfo \<Rightarrow> 'r resolve_result) \<Rightarrow>
   RateLimitDirectiveArgs \<Rightarrow> 'src \<Rightarrow> 'rargs \<Rightarrow> 'ctx \<Rightarrow> GraphQLResolveInfo \<Rightarrow>
   directive_state \<Rightarrow> (thrown + 'r) \<times> call list \<times> directive_state" where
  "fieldConfig_resolve keyGenerator consume resolve args source resolverArgs context info st =
     (case keyGenerator args source resolverArgs context info of
        Inl error \<Rightarrow> (Inl (resolve_catch error), [KeyGeneratorCall], st)
      | Inr key \<Rightarrow>
          (case getLimiter args st of
             (Inl error, st1) \<Rightarrow> (Inl (resolve_catch error), [KeyGeneratorCall], st1)
           | (Inr limiter, st1) \<Rightarrow>
               (case consume limiter key of
                  Inl rateLimitError \<Rightarrow>
                    (Inl (resolve_catch (consume_catch rateLimitError)),
                     [KeyGeneratorCall, ConsumeCall (ident limiter) key], st1)
                | Inr u \<Rightarrow>
                    (case resolve source resolverArgs context info of
                       Returns v \<Rightarrow>
                         (Inr v, [KeyGeneratorCall, ConsumeCall (ident limiter) key, ResolveCall], st1)
                     | Throws error \<Rightarrow>
                         (Inl (resolve_catch error),
                          [KeyGeneratorCall, ConsumeCall (ident limiter) key, ResolveCall], st1)
                     | Rejects error \<Rightarrow>
                         (Inl error,
                          [KeyGeneratorCall, ConsumeCall (ident limiter) key, ResolveCall], st1)))))"

section \<open>Notions used by the properties\<close>

text \<open>The bounds of the specification: a positive integer no larger than \<open>b\<close>.\<close>

fun positive_integer_upto :: "js_number \<Rightarrow> int \<Rightarrow> bool" where
  "positive_integer_upto (JInt i) b = (0 < i \<and> i \<le> b)"
| "positive_integer_upto (JFrac neg w ds) b = False"
| "positive_integer_upto JNaN b = False"
| "positive_integer_upto JInfinity b = False"
| "positive_integer_upto JNegInfinity b = False"

definition within_bounds :: "RateLimitDirectiveArgs \<Rightarrow> bool" where
  "within_bounds args =
     (positive_integer_upto (limit args) 1000000 \<and> positive_integer_upto (duration args) 31536000)"

text \<open>A number other than \<^verbatim>\<open>NaN\<close>, \<^verbatim>\<open>Infinity\<close> and \<^verbatim>\<open>-Infinity\<close>.\<close>

fun is_finite :: "js_number \<Rightarrow> bool" where
  "is_finite (JInt i) = True"
| "is_finite (JFrac neg w ds) = True"
| "is_finite JNaN = False"
| "is_finite JInfinity = False"
| "is_finite JNegInfinity = False"

text \<open>
  A GraphQL name, as the GraphQL grammar and graphql-js have it for every type and field
  of a schema: a letter or underscore, then letters, digits and underscores. The
  \<^verbatim>\<open>parentType.name\<close> and \<^verbatim>\<open>fieldName\<close> of a \<^verbatim>\<open>GraphQLResolveInfo\<close> are such names.
\<close>

definition name_start :: "char \<Rightarrow> bool" where
  "name_start c =
     (let n = (of_char c :: nat) in n = 95 \<or> (65 \<le> n \<and> n \<le> 90) \<or> (97 \<le> n \<and> n \<le> 122))"

definition name_continue :: "char \<Rightarrow> bool" where
  "name_continue c = (name_start c \<or> (48 \<le> (of_char c :: nat) \<and> (of_char c :: nat) \<le> 57))"

fun graphql_name :: "string \<Rightarrow> bool" where
  "graphql_name [] = False"
| "graphql_name (c # cs) = (name_start c \<and> list_all name_continue cs)"

text \<open>
  The payload shape in the words of the specification: extensions with a \<^verbatim>\<open>code\<close>, an
  \<^verbatim>\<open>httpStatus\<close> and, for the quota outcome only, an integer \<^verbatim>\<open>retryAfterSeconds\<close>.
\<close>

fun integer_field :: "js_value option \<Rightarrow> bool" where
  "integer_field (Some (VNumber n)) = Number_isInteger n"
| "integer_field (Some VUndefined) = False"
| "integer_field (Some VNull) = False"
| "integer_field (Some (VBoolean b)) = False"
| "integer_field (Some (VString s)) = False"
| "integer_field (Some (VArray xs)) = False"
| "integer_field (Some (VObject props)) = False"
| "integer_field None = False"

fun specified_payload_shape :: "thrown \<Rightarrow> bool" where
  "specified_payload_shape (GraphQLError m ext) =
     ((map_of ext ''code'' = Some (VString ''RATE_LIMITED'') \<and>
       map_of ext ''httpStatus'' = Some (VNumber (JInt 429)) \<and>
       integer_field (map_of ext ''retryAfterSeconds'')) \<or>
      (map_of ext ''code'' = Some (VString ''RATE_LIMIT_SERVICE_ERROR'') \<and>
       map_of ext ''httpStatus'' = Some (VNumber (JInt 503)) \<and>
       map_of ext ''retryAfterSeconds'' = None))"
| "specified_payload_shape (Error m) = False"
| "specified_payload_shape (Rejection message msBeforeNext) = False"
| "specified_payload_shape Nullish = False"
| "specified_payload_shape TypeError = False"

text \<open>The three components of a wrapped-resolver result.\<close>

definition outcome_of :: "'a \<times> call list \<times> directive_state \<Rightarrow> 'a" where
  "outcome_of r = fst r"

definition calls_of :: "'a \<times> call list \<times> directive_state \<Rightarrow> call list" where
  "calls_of r = fst (snd r)"

definition state_of :: "'a \<times> call list \<times> directive_state \<Rightarrow> directive_state" where
  "state_of r = snd (snd r)"

subsection \<open>Runs of getLimiter on one directive\<close>

text \<open>The state after a sequence of \<^verbatim>\<open>getLimiter\<close> calls (a call that throws leaves the
  state as it was), and the state of a fresh directive after such a sequence.\<close>

fun getLimiter_calls :: "RateLimitDirectiveArgs list \<Rightarrow> directive_state \<Rightarrow> directive_state" where
  "getLimiter_calls [] st = st"
| "getLimiter_calls (args # rest) st = getLimiter_calls rest (snd (getLimiter args st))"

definition state_after :: "RateLimitDirectiveArgs list \<Rightarrow> directive_state" where
  "state_after calls = getLimiter_calls calls initial_state"

definition cache_keys :: "directive_state \<Rightarrow> string list" where
  "cache_keys st = map fst (limiterCache st)"

text \<open>The cache keys of the calls that pass validation, in call order.\<close>

definition keys_used :: "RateLimitDirectiveArgs list \<Rightarrow> string list" where
  "keys_used calls = map cacheKey (filter within_bounds calls)"

text \<open>Of a sequence of uses, oldest first: the \<open>n\<close> most recently used items, each once,
  ordered by their last use, the least recently used first.\<close>

definition most_recent :: "nat \<Rightarrow> 'a list \<Rightarrow> 'a list" where
  "most_recent n uses = (let r = remdups uses in drop (length r - n) r)"

text \<open>How one use of key \<open>k\<close> changes the keys of the cache.\<close>

definition use_key :: "string \<Rightarrow> string list \<Rightarrow> string list" where
  "use_key k ks =
     (if k \<in> set ks then filter (\<lambda>x. x \<noteq> k) ks @ [k]
      else (if length ks \<ge> MAX_LIMITER_CACHE_SIZE then tl ks else ks) @ [k])"

text \<open>Cached limiters are distinct objects, all constructed earlier.\<close>

definition idents_ok :: "directive_state \<Rightarrow> bool" where
  "idents_ok st =
     (distinct (map (\<lambda>e. ident (snd e)) (limiterCache st)) \<and>
      (\<forall>e \<in> set (limiterCache st). ident (snd e) < constructed st))"

subsection \<open>Sample inputs\<close>

text \<open>Directive arguments: \<^verbatim>\<open>@rateLimit(limit: 10, duration: 60)\<close>, an invalid
  \<^verbatim>\<open>@rateLimit(limit: -1, duration: 60)\<close>, \<^verbatim>\<open>@rateLimit(limit: n, duration: 60)\<close>, and the
  hundred of the latter with the limits 4 to 103.\<close>

definition sample_args :: RateLimitDirectiveArgs where
  "sample_args = \<lparr>duration = JInt 60, limit = JInt 10\<rparr>"

definition negative_limit_args :: RateLimitDirectiveArgs where
  "negative_limit_args = \<lparr>duration = JInt 60, limit = JInt (- 1)\<rparr>"

definition limit_args :: "nat \<Rightarrow> RateLimitDirectiveArgs" where
  "limit_args n = \<lparr>duration = JInt 60, limit = JInt (int n)\<rparr>"

definition hundred_others :: "RateLimitDirectiveArgs list" where
  "hundred_others = map limit_args [4..<104]"

text \<open>The first limiter a directive constructs for \<open>sample_args\<close>, and the state then.\<close>

definition first_limiter :: RateLimiterRedis where
  "first_limiter = \<lparr>ident = 0, opt_duration = JInt 60, opt_points = JInt 10\<rparr>"

definition first_state :: directive_state where
  "first_state = \<lparr>limiterCache = [(''60:10'', first_limiter)], constructed = 1\<rparr>"

text \<open>The resolve info of the field \<^verbatim>\<open>Query.test\<close>.\<close>

definition Query_test :: GraphQLResolveInfo where
  "Query_test = \<lparr>parentType_name = ''Query'', fieldName = ''test''\<rparr>"

text \<open>Key generators: the default one, one that throws, and the identifiers
  \<^verbatim>\<open>{ apiKey: undefined, userId: null }\<close> for the composite one.\<close>

definition default_keys ::
  "RateLimitDirectiveArgs \<Rightarrow> unit \<Rightarrow> unit \<Rightarrow> unit \<Rightarrow> GraphQLResolveInfo \<Rightarrow> thrown + string" where
  "default_keys args source resolverArgs context info =
     Inr (defaultKeyGenerator args source resolverArgs context info)"

definition failing_keys ::
  "RateLimitDirectiveArgs \<Rightarrow> unit \<Rightarrow> unit \<Rightarrow> unit \<Rightarrow> GraphQLResolveInfo \<Rightarrow> thrown + string" where
  "failing_keys args source resolverArgs context info = Inl (Error ''no user in context'')"

definition all_null_identifiers :: "unit \<Rightarrow> (string \<times> js_string_opt) list" where
  "all_null_identifiers context = [(''apiKey'', JUndefined), (''userId'', JNull)]"

text \<open>Limiters whose \<^verbatim>\<open>consume\<close> resolves, or rejects with a given value; and some
  such values.\<close>

definition consume_resolves :: "RateLimiterRedis \<Rightarrow> string \<Rightarrow> thrown + unit" where
  "consume_resolves limiter key = Inr ()"

definition consume_rejects :: "thrown \<Rightarrow> RateLimiterRedis \<Rightarrow> string \<Rightarrow> thrown + unit" where
  "consume_rejects e limiter key = Inl e"

definition quota_rejection :: thrown where
  "quota_rejection = Rejection (VString ''Rate limit exceeded'') (VNumber (JInt 5000))"

definition fractional_rejection :: thrown where
  "fractional_rejection = Rejection VUndefined (VNumber (JFrac False 1500 [5]))"

definition nan_rejection :: thrown where
  "nan_rejection = Rejection VUndefined (VNumber JNaN)"

definition infinite_rejection :: thrown where
  "infinite_rejection = Rejection VUndefined (VNumber JInfinity)"

definition connection_refused :: thrown where
  "connection_refused = Error ''connect ECONNREFUSED 127.0.0.1:6379''"

definition redis_down :: thrown where
  "redis_down = Error ''Redis connection failed''"

text \<open>Original resolvers: one that returns, one that throws and one whose promise
  rejects.\<close>

definition resolver_success :: "unit \<Rightarrow> unit \<Rightarrow> unit \<Rightarrow> GraphQLResolveInfo \<Rightarrow> string resolve_result" where
  "resolver_success source resolverArgs context info = Returns ''success''"

definition resolver_throws ::
  "thrown \<Rightarrow> unit \<Rightarrow> unit \<Rightarrow> unit \<Rightarrow> GraphQLResolveInfo \<Rightarrow> string resolve_result" where
  "resolver_throws e source resolverArgs context info = Throws e"

definition resolver_rejects ::
  "thrown \<Rightarrow> unit \<Rightarrow> unit \<Rightarrow> unit \<Rightarrow> GraphQLResolveInfo \<Rightarrow> string resolve_result" where
  "resolver_rejects e source resolverArgs context info = Rejects e"

definition redis_lookup_failed :: thrown where
  "redis_lookup_failed = Error ''Redis cache lookup failed''"

section \<open>Text of numbers\<close>

lemma append_sep_eq:
  "c \<notin> set a \<Longrightarrow> c \<notin> set a' \<Longrightarrow> a @ c # b = a' @ c # b' \<Longrightarrow> a = a' \<and> b = b'"
proof (induction a arbitrary: a')
  case Nil
  then show ?case by (cases a') auto
next
  case (Cons x a)
  then show ?case by (cases a') auto
qed

lemma digit_char_in: "digit_char d \<in> set ''0123456789''"
  unfolding digit_char_def by (rule nth_mem) simp

lemma digit_char_inj: "d < 10 \<Longrightarrow> e < 10 \<Longrightarrow> digit_char d = digit_char e \<Longrightarrow> d = e"
  unfolding digit_char_def
  by (subst (asm) nth_eq_iff_index_eq) simp_all

lemma set_show_nat: "set (show_nat n) \<subseteq> set ''0123456789''"
proof (induction n rule: show_nat.induct)
  case (1 n)
  show ?case
  proof (cases "n < 10")
    case True
    then show ?thesis using digit_char_in [of n] by (subst show_nat.simps) simp
  next
    case False
    then show ?thesis using 1 digit_char_in [of "n mod 10"]
      by (subst show_nat.simps) simp
  qed
qed

lemma show_nat_not_Nil: "show_nat n \<noteq> []"
  by (subst show_nat.simps) simp

lemma show_nat_inj: "show_nat n = show_nat m \<Longrightarrow> n = m"
proof (induction n arbitrary: m rule: show_nat.induct)
  case (1 n)
  show ?case
  proof (cases "n < 10")
    case n: True
    show ?thesis
    proof (cases "m < 10")
      case True
      with n 1(2) show ?thesis
        by (simp add: show_nat.simps [of n] show_nat.simps [of m] digit_char_inj)
    next
      case False
      with n 1(2) show ?thesis
        using show_nat_not_Nil [of "m div 10"]
        by (simp add: show_nat.simps [of n] show_nat.simps [of m])
    qed
  next
    case n: False
    show ?thesis
    proof (cases "m < 10")
      case True
      with n 1(2) show ?thesis
        using show_nat_not_Nil [of "n div 10"]
        by (simp add: show_nat.simps [of n] show_nat.simps [of m])
    next
      case False
      with n 1(2) have eq: "show_nat (n div 10) = show_nat (m div 10)"
        and d: "digit_char (n mod 10) = digit_char (m mod 10)"
        by (simp_all add: show_nat.simps [of n] show_nat.simps [of m])
      from 1(1) [OF n eq] have "n div 10 = m div 10" .
      moreover from d have "n mod 10 = m mod 10"
        by (rule digit_char_inj [rotated 2]) simp_all
      ultimately show ?thesis by (metis div_mult_mod_eq)
    qed
  qed
qed


lemma show_nat_no_letter: "c \<notin> set ''0123456789'' \<Longrightarrow> c \<notin> set (show_nat n)"
  using set_show_nat [of n] by blast

lemma digits_no_letter: "c \<notin> set ''0123456789'' \<Longrightarrow> c \<notin> set (map digit_char ds)"
  using digit_char_in by auto

lemma number_to_string_no_R: "CHR ''R'' \<notin> set (number_to_string n)"
  by (cases n) (simp_all add: show_nat_no_letter digits_no_letter del: set_map)

lemma not_str_includes: "c \<in> set needle \<Longrightarrow> c \<notin> set s \<Longrightarrow> \<not> str_includes s needle"
  unfolding str_includes_def using set_mono_sublist by fastforce

lemma validate_iff: "validateDirectiveArgs args = Inr () \<longleftrightarrow> within_bounds args"
  unfolding validateDirectiveArgs_def within_bounds_def
  by (cases "limit args"; cases "duration args") auto

lemma validate_error:
  "\<not> within_bounds args \<Longrightarrow>
   \<exists>m. validateDirectiveArgs args = Inl (Error m) \<and> CHR ''R'' \<notin> set m"
  unfolding validateDirectiveArgs_def within_bounds_def
  by (cases "limit args"; cases "duration args")
     (auto simp: number_to_string_no_R simp del: number_to_string.simps)

lemma validate_cases:
  "validateDirectiveArgs args = Inr () \<or>
   (\<exists>m. validateDirectiveArgs args = Inl (Error m) \<and> CHR ''R'' \<notin> set m)"
  using validate_iff validate_error by blast

lemma resolve_catch_no_R: "CHR ''R'' \<notin> set m \<Longrightarrow> resolve_catch (Error m) = Error m"
  unfolding resolve_catch_def
  using not_str_includes [of "CHR ''R''" "''Redis''" m] by simp

lemma getLimiter_invalid:
  "\<not> within_bounds args \<Longrightarrow> \<exists>m. getLimiter args st = (Inl (Error m), st) \<and> CHR ''R'' \<notin> set m"
  using validate_error [of args] by (auto simp: getLimiter_def)

lemma getLimiter_valid:
  "within_bounds args \<Longrightarrow> \<exists>limiter st'. getLimiter args st = (Inr limiter, st')"
  using validate_iff [of args] by (auto simp: getLimiter_def Let_def split: option.splits)

section \<open>The ceiling of a thousandth\<close>

lemma frac_value_bounds: "0 \<le> frac_value ds \<and> frac_value ds < 1"
proof (induction ds)
  case Nil
  show ?case by simp
next
  case (Cons d ds)
  have "d mod 10 \<le> 9" by simp
  then have "real (d mod 10) \<le> 9" by (metis of_nat_le_iff of_nat_numeral)
  with Cons show ?case by simp
qed

lemma frac_value_zero: "frac_value ds = 0 \<longleftrightarrow> list_all (\<lambda>d. d mod 10 = 0) ds"
proof (induction ds)
  case Nil
  show ?case by simp
next
  case (Cons d ds)
  have "0 \<le> frac_value ds" using frac_value_bounds by simp
  moreover have "0 \<le> real (d mod 10)" by simp
  ultimately have "real (d mod 10) + frac_value ds = 0 \<longleftrightarrow> d mod 10 = 0 \<and> frac_value ds = 0"
    by (smt (verit) of_nat_eq_0_iff)
  with Cons show ?case by simp
qed

lemma ceil_div_1000_int: "ceil_div_1000 (JInt i) = JInt \<lceil>real_of_int i / 1000\<rceil>"
proof -
  have "\<lfloor>real_of_int (- i) / real_of_int 1000\<rfloor> = (- i) div 1000"
    by (rule floor_divide_of_int_eq)
  then show ?thesis by (simp add: ceiling_def)
qed

lemma thousand_split: "real w = 1000 * real (w div 1000) + real (w mod 1000)"
proof -
  have "real w = real (1000 * (w div 1000) + w mod 1000)"
    by (simp only: mult_div_mod_eq)
  also have "\<dots> = 1000 * real (w div 1000) + real (w mod 1000)"
    by (simp only: of_nat_add of_nat_mult of_nat_numeral)
  finally show ?thesis .
qed

lemma ceil_positive_fraction:
  assumes "0 < f" and "f < 1"
  shows "\<lceil>(real w + f) / 1000\<rceil> = int w div 1000 + 1"
proof -
  have r: "real (w mod 1000) \<le> 999"
  proof -
    have "w mod 1000 \<le> 999" by simp
    then show ?thesis by (metis of_nat_le_iff of_nat_numeral)
  qed
  have q: "int w div 1000 = int (w div 1000)" by (simp add: zdiv_int)
  have "\<lceil>(real w + f) / 1000\<rceil> = int (w div 1000) + 1"
  proof (rule ceiling_unique)
    show "real_of_int (int (w div 1000) + 1) - 1 < (real w + f) / 1000"
      using assms thousand_split [of w] by simp
    show "(real w + f) / 1000 \<le> real_of_int (int (w div 1000) + 1)"
      using assms r thousand_split [of w] by simp
  qed
  with q show ?thesis by simp
qed

lemma ceil_negative_fraction:
  assumes "0 \<le> f" and "f < 1"
  shows "\<lceil>- (real w + f) / 1000\<rceil> = - (int w div 1000)"
proof -
  have r: "real (w mod 1000) \<le> 999"
  proof -
    have "w mod 1000 \<le> 999" by simp
    then show ?thesis by (metis of_nat_le_iff of_nat_numeral)
  qed
  have q: "int w div 1000 = int (w div 1000)" by (simp add: zdiv_int)
  have "\<lceil>- (real w + f) / 1000\<rceil> = - int (w div 1000)"
  proof (rule ceiling_unique)
    show "real_of_int (- int (w div 1000)) - 1 < - (real w + f) / 1000"
      using assms r thousand_split [of w] by simp
    show "- (real w + f) / 1000 \<le> real_of_int (- int (w div 1000))"
      using assms thousand_split [of w] by simp
  qed
  with q show ?thesis by simp
qed

lemma ceil_div_1000_finite:
  "is_finite n \<Longrightarrow> ceil_div_1000 n = JInt \<lceil>number_value n / 1000\<rceil>"
proof (cases n)
  case (JInt i)
  then show ?thesis by (simp only: ceil_div_1000_int number_value.simps)
next
  case (JFrac neg w ds)
  note b = frac_value_bounds [of ds]
  show ?thesis
  proof (cases neg)
    case True
    with JFrac ceil_negative_fraction [of "frac_value ds" w] b show ?thesis by simp
  next
    case pos: False
    show ?thesis
    proof (cases "list_all (\<lambda>d. d mod 10 = 0) ds")
      case True
      then have "frac_value ds = 0" by (simp add: frac_value_zero)
      with JFrac pos True ceil_div_1000_int [of "int w"] show ?thesis by simp
    next
      case False
      then have "frac_value ds \<noteq> 0" by (simp add: frac_value_zero)
      with b have "0 < frac_value ds" by simp
      with JFrac pos False ceil_positive_fraction [of "frac_value ds" w] b show ?thesis by simp
    qed
  qed
qed simp_all

lemma ceil_div_1000_not_finite: "\<not> is_finite n \<Longrightarrow> ceil_div_1000 n = n"
  by (cases n) simp_all

lemma ceil_div_1000_eq:
  "ceil_div_1000 n = (if is_finite n then JInt \<lceil>number_value n / 1000\<rceil> else n)"
  by (simp add: ceil_div_1000_finite ceil_div_1000_not_finite)

section \<open>Sample invocations\<close>

lemma eval_includes:
  "str_includes ''connect ECONNREFUSED 127.0.0.1:6379'' ''Redis'' = False"
  "str_includes ''Redis connection failed'' ''Redis'' = True"
  "str_includes ''Redis cache lookup failed'' ''Redis'' = True"
  "str_includes ''no user in context'' ''Redis'' = False"
  "str_includes ''Rate limit exceeded'' ''Redis'' = False"
  by (simp_all add: str_includes_def sublist_code)

lemma quota_exceeded_passes: "resolve_catch (quota_exceeded ms) = quota_exceeded ms"
  by (simp add: resolve_catch_def quota_exceeded_def eval_includes)

lemma cacheKey_sample: "cacheKey sample_args = ''60:10''"
  by code_simp

lemma sample_args_fields: "duration sample_args = JInt 60" "limit sample_args = JInt 10"
  by (simp_all add: sample_args_def)

lemma validate_sample: "validateDirectiveArgs sample_args = Inr ()"
  by (simp add: validateDirectiveArgs_def sample_args_fields)

lemma getLimiter_sample: "getLimiter sample_args initial_state = (Inr first_limiter, first_state)"
  by (simp add: getLimiter_def cacheKey_sample validate_sample sample_args_fields first_state_def
      initial_state_def Map_get_def Map_size_def MAX_LIMITER_CACHE_SIZE_def Let_def
      first_limiter_def)

lemma default_keys_sample: "default_keys sample_args () () () Query_test = Inr ''Query.test''"
  by (simp add: default_keys_def defaultKeyGenerator_def Query_test_def)

lemma negative_limit_invalid: "\<not> within_bounds negative_limit_args"
  by (simp add: within_bounds_def negative_limit_args_def)

lemma getLimiter_negative:
  "getLimiter negative_limit_args st
     = (Inl (Error ''Invalid rate limit: -1. Must be a positive integer.''), st)"
proof -
  have "show_nat 1 = ''1''" by code_simp
  then show ?thesis
    by (simp add: getLimiter_def validateDirectiveArgs_def negative_limit_args_def)
qed

lemma optional_includes_throws: "optional_includes v needle = Inl t \<Longrightarrow> t = TypeError"
  by (cases v) simp_all

lemma message_includes_throws: "message_includes e needle = Inl t \<Longrightarrow> t = TypeError"
  by (cases e) (simp_all add: optional_includes_throws)

lemma resolve_catch_cases:
  "resolve_catch e = TypeError \<or> resolve_catch e = e \<or> resolve_catch e = service_unavailable"
proof (cases "message_includes e ''Redis''")
  case (Inl t)
  with message_includes_throws [OF Inl] show ?thesis by (simp add: resolve_catch_def)
next
  case (Inr found)
  then show ?thesis by (simp add: resolve_catch_def)
qed

lemma classify_cases:
  "resolve_catch (consume_catch r) = TypeError \<or>
   resolve_catch (consume_catch r) = r \<or>
   resolve_catch (consume_catch r) = service_unavailable \<or>
   (\<exists>ms. numeric_msBeforeNext r = Some ms \<and> resolve_catch (consume_catch r) = quota_exceeded ms)"
proof (cases "numeric_msBeforeNext r")
  case None
  then show ?thesis using resolve_catch_cases [of r] by (simp add: consume_catch_def)
next
  case (Some ms)
  then show ?thesis by (simp add: consume_catch_def quota_exceeded_passes)
qed

lemma quota_outcome_sample:
  "numeric_msBeforeNext r = Some ms \<Longrightarrow>
   outcome_of (fieldConfig_resolve default_keys (consume_rejects r) resolver_success
       sample_args () () () Query_test initial_state)
     = Inl (GraphQLError ''Rate limit exceeded''
             [(''code'', VString ''RATE_LIMITED''),
              (''http'', VObject [(''status'', VNumber (JInt 429))]),
              (''retryAfter'', VNumber (ceil_div_1000 ms))])"
  by (simp add: fieldConfig_resolve_def outcome_of_def default_keys_sample getLimiter_sample
      consume_rejects_def consume_catch_def quota_exceeded_passes del: ceil_div_1000.simps)
     (simp add: quota_exceeded_def)

lemma redis_down_sample:
  "outcome_of (fieldConfig_resolve default_keys (consume_rejects redis_down) resolver_success
       sample_args () () () Query_test initial_state)
     = Inl (GraphQLError ''Rate limiting service unavailable''
             [(''code'', VString ''RATE_LIMIT_SERVICE_ERROR''),
              (''http'', VObject [(''status'', VNumber (JInt 503))])])"
  by (simp add: fieldConfig_resolve_def outcome_of_def default_keys_sample getLimiter_sample
      consume_rejects_def redis_down_def consume_catch_def resolve_catch_def eval_includes
      service_unavailable_def)

section \<open>GraphQL names\<close>

lemma name_continue_not_dot: "name_continue c \<Longrightarrow> c \<noteq> CHR ''.''"
  by (auto simp: name_continue_def name_start_def Let_def)

lemma graphql_name_no_dot: "graphql_name s \<Longrightarrow> CHR ''.'' \<notin> set s"
proof (cases s)
  case Nil
  then show ?thesis by simp
next
  case (Cons c cs)
  assume "graphql_name s"
  with Cons have "name_continue c" and "list_all name_continue cs"
    by (simp_all add: name_continue_def)
  then have "\<forall>x \<in> set s. name_continue x" by (simp add: Cons list_all_iff)
  then show ?thesis using name_continue_not_dot by blast
qed

lemma Query_name: "graphql_name ''Query''"
  by (simp add: name_start_def name_continue_def)

section \<open>The limiter cache: lemmas\<close>

lemma keys_Map_delete: "map fst (Map_delete m k) = filter (\<lambda>x. x \<noteq> k) (map fst m)"
  by (induction m) auto

lemma Map_delete_absent: "k \<notin> fst ` set m \<Longrightarrow> Map_delete m k = m"
  by (induction m) auto

lemma Map_set_absent: "k \<notin> fst ` set m \<Longrightarrow> Map_set m k v = m @ [(k, v)]"
proof (induction m)
  case Nil
  then show ?case by simp
next
  case (Cons e m)
  then show ?case by (cases e) auto
qed

lemma in_Map_delete: "e \<in> set (Map_delete m k) \<longleftrightarrow> e \<in> set m \<and> fst e \<noteq> k"
proof (induction m)
  case Nil
  then show ?case by simp
next
  case (Cons x m)
  then show ?case by (cases x) auto
qed

lemma Map_get_None: "Map_get m k = None \<longleftrightarrow> k \<notin> fst ` set m"
  by (simp add: Map_get_def map_of_eq_None_iff)

lemma Map_get_Some: "Map_get m k = Some v \<Longrightarrow> (k, v) \<in> set m"
  by (simp add: Map_get_def map_of_SomeD)

lemma evict_oldest_tl:
  "distinct (map fst m) \<Longrightarrow> [] \<notin> fst ` set m \<Longrightarrow> evict_oldest m = tl m"
  by (cases m) (auto simp: evict_oldest_def Map_delete_absent)

lemma getLimiter_invalid_state: "\<not> within_bounds args \<Longrightarrow> snd (getLimiter args st) = st"
  using getLimiter_invalid [of args st] by auto

lemma getLimiter_hit:
  assumes "within_bounds args" and "Map_get (limiterCache st) (cacheKey args) = Some limiter"
  shows "getLimiter args st
           = (Inr limiter,
              st\<lparr>limiterCache := Map_delete (limiterCache st) (cacheKey args) @ [(cacheKey args, limiter)]\<rparr>)"
proof -
  have "cacheKey args \<notin> fst ` set (Map_delete (limiterCache st) (cacheKey args))"
    by (auto simp: in_Map_delete)
  then show ?thesis
    using assms validate_iff [of args] by (simp add: getLimiter_def Map_set_absent)
qed

lemma getLimiter_miss:
  assumes "within_bounds args" and "Map_get (limiterCache st) (cacheKey args) = None"
    and "distinct (map fst (limiterCache st))" and "[] \<notin> fst ` set (limiterCache st)"
  shows "getLimiter args st
           = (Inr \<lparr>ident = constructed st, opt_duration = duration args, opt_points = limit args\<rparr>,
              \<lparr>limiterCache =
                 (if length (limiterCache st) \<ge> MAX_LIMITER_CACHE_SIZE
                  then tl (limiterCache st) else limiterCache st)
                 @ [(cacheKey args,
                     \<lparr>ident = constructed st, opt_duration = duration args, opt_points = limit args\<rparr>)],
               constructed = Suc (constructed st)\<rparr>)"
proof -
  have a: "cacheKey args \<notin> fst ` set (limiterCache st)"
    using assms(2) by (simp add: Map_get_None)
  then have "cacheKey args \<notin> fst ` set (tl (limiterCache st))"
    by (cases "limiterCache st") auto
  with a show ?thesis
    using assms validate_iff [of args]
    by (simp add: getLimiter_def Map_size_def evict_oldest_tl Map_set_absent Let_def)
qed

lemma cache_keys_step:
  assumes "within_bounds args" and "distinct (cache_keys st)" and "[] \<notin> set (cache_keys st)"
  shows "cache_keys (snd (getLimiter args st)) = use_key (cacheKey args) (cache_keys st)"
proof (cases "Map_get (limiterCache st) (cacheKey args)")
  case None
  then have "cacheKey args \<notin> set (cache_keys st)"
    by (simp add: Map_get_None cache_keys_def)
  then show ?thesis
    using getLimiter_miss [OF assms(1) None] assms(2,3)
    by (simp add: cache_keys_def use_key_def map_tl)
next
  case (Some limiter)
  then have "cacheKey args \<in> set (cache_keys st)"
    using Map_get_Some [OF Some] by (force simp: cache_keys_def)
  then show ?thesis
    using getLimiter_hit [OF assms(1) Some]
    by (simp add: cache_keys_def use_key_def keys_Map_delete)
qed

lemma length_filter_distinct:
  "distinct c \<Longrightarrow> k \<in> set c \<Longrightarrow> Suc (length (filter (\<lambda>x. x \<noteq> k) c)) = length c"
proof (induction c)
  case Nil
  then show ?case by simp
next
  case (Cons a c)
  show ?case
  proof (cases "a = k")
    case True
    with Cons.prems have "filter (\<lambda>x. x \<noteq> k) c = c" by (auto simp: filter_id_conv)
    with True show ?thesis by simp
  next
    case False
    with Cons show ?thesis by simp
  qed
qed

lemma most_recent_step:
  assumes d: "distinct r" and n: "0 < n"
  shows "drop (length (filter (\<lambda>x. x \<noteq> k) r @ [k]) - n) (filter (\<lambda>x. x \<noteq> k) r @ [k])
           = (if k \<in> set (drop (length r - n) r)
              then filter (\<lambda>x. x \<noteq> k) (drop (length r - n) r) @ [k]
              else (if length (drop (length r - n) r) \<ge> n
                    then tl (drop (length r - n) r) else drop (length r - n) r) @ [k])"
proof -
  define c where "c = drop (length r - n) r"
  define p where "p = take (length r - n) r"
  define f where "f = filter (\<lambda>x. x \<noteq> k)"
  have r: "r = p @ c" by (simp add: p_def c_def)
  have lp: "length p = length r - n" by (simp add: p_def)
  have lc: "length c = min n (length r)" using n by (simp add: c_def)
  have dc: "distinct c" using d r by simp
  have fr: "f r = f p @ f c" by (subst r) (simp add: f_def)
  have main: "drop (length (f r @ [k]) - n) (f r @ [k])
           = (if k \<in> set c then f c @ [k] else (if length c \<ge> n then tl c else c) @ [k])"
  proof (cases "k \<in> set c")
    case True
    then have "k \<notin> set p" using d r by auto
    then have fp: "f p = p" by (auto simp: f_def filter_id_conv)
    have lf: "Suc (length (f c)) = length c"
      unfolding f_def using dc True by (rule length_filter_distinct)
    have "length (f r @ [k]) = length p + length c"
      using lf by (simp add: fr fp)
    then have "length (f r @ [k]) - n = length p" using lc lp by linarith
    then have "drop (length (f r @ [k]) - n) (f r @ [k]) = f c @ [k]"
      by (simp add: fr fp)
    with True show ?thesis by simp
  next
    case False
    then have fc: "f c = c" by (auto simp: f_def filter_id_conv)
    show ?thesis
    proof (cases "length c \<ge> n")
      case True
      then have cn: "c \<noteq> []" using n by auto
      from True lc have ln: "length c = n" by linarith
      have e: "f r @ [k] = (f p @ [hd c]) @ (tl c @ [k])"
        using cn by (simp add: fr fc)
      have l: "length (f r @ [k]) - n = length (f p @ [hd c])"
        by (simp add: fr fc ln)
      have "drop (length (f r @ [k]) - n) (f r @ [k]) = drop (length (f p @ [hd c])) (f r @ [k])"
        by (simp only: l)
      also have "\<dots> = drop (length (f p @ [hd c])) ((f p @ [hd c]) @ (tl c @ [k]))"
        by (simp only: e)
      also have "\<dots> = tl c @ [k]"
        by (rule append_eq_conv_conj [THEN iffD1, THEN conjunct2, symmetric]) (rule refl)
      finally have "drop (length (f r @ [k]) - n) (f r @ [k]) = tl c @ [k]" .
      with False True show ?thesis by simp
    next
      case short: False
      then have "length r < n" using lc by linarith
      then have cr: "c = r" and pe: "p = []" by (simp_all add: c_def p_def)
      have fe: "f [] = []" by (simp add: f_def)
      have "length (f r @ [k]) - n = 0"
        using short by (simp add: fr fc pe fe)
      then have "drop (length (f r @ [k]) - n) (f r @ [k]) = c @ [k]"
        by (simp add: fr fc pe fe)
      with False short show ?thesis by simp
    qed
  qed
  then show ?thesis by (simp only: c_def f_def)
qed

lemma remdups_snoc: "remdups (xs @ [k]) = filter (\<lambda>x. x \<noteq> k) (remdups xs) @ [k]"
  by (induction xs) auto

lemma most_recent_snoc:
  "0 < n \<Longrightarrow> most_recent n (uses @ [k])
     = (if k \<in> set (most_recent n uses)
        then filter (\<lambda>x. x \<noteq> k) (most_recent n uses) @ [k]
        else (if length (most_recent n uses) \<ge> n
              then tl (most_recent n uses) else most_recent n uses) @ [k])"
  unfolding most_recent_def Let_def remdups_snoc
  by (rule most_recent_step) simp_all

lemma MAX_positive: "0 < MAX_LIMITER_CACHE_SIZE"
  by (simp add: MAX_LIMITER_CACHE_SIZE_def)

lemma most_recent_use: "most_recent MAX_LIMITER_CACHE_SIZE (uses @ [k])
    = use_key k (most_recent MAX_LIMITER_CACHE_SIZE uses)"
  unfolding use_key_def by (rule most_recent_snoc) (rule MAX_positive)

lemma distinct_most_recent: "distinct (most_recent n uses)"
  by (simp add: most_recent_def Let_def)

lemma set_most_recent: "set (most_recent n uses) \<subseteq> set uses"
  unfolding most_recent_def Let_def using set_drop_subset [of _ "remdups uses"] by auto

lemma length_most_recent: "length (most_recent n uses) \<le> n"
  by (simp add: most_recent_def Let_def)

lemma cacheKey_not_Nil: "cacheKey args \<noteq> []"
  by (simp add: cacheKey_def)

lemma keys_used_not_Nil: "[] \<notin> set (keys_used calls)"
proof
  assume "[] \<in> set (keys_used calls)"
  then obtain x where "[] = cacheKey x" by (auto simp: keys_used_def)
  then show False using cacheKey_not_Nil [of x] by simp
qed

lemma keys_used_snoc:
  "keys_used (calls @ [args])
     = (if within_bounds args then keys_used calls @ [cacheKey args] else keys_used calls)"
  by (simp add: keys_used_def)

lemma getLimiter_calls_snoc:
  "getLimiter_calls (calls @ [args]) st = snd (getLimiter args (getLimiter_calls calls st))"
  by (induction calls arbitrary: st) simp_all

lemma cache_keys_run:
  "cache_keys (getLimiter_calls calls initial_state)
     = most_recent MAX_LIMITER_CACHE_SIZE (keys_used calls)"
proof (induction calls rule: rev_induct)
  case Nil
  show ?case by (simp add: cache_keys_def initial_state_def keys_used_def most_recent_def)
next
  case (snoc args calls)
  let ?st = "getLimiter_calls calls initial_state"
  show ?case
  proof (cases "within_bounds args")
    case False
    then show ?thesis
      using snoc by (simp add: getLimiter_calls_snoc getLimiter_invalid_state keys_used_snoc)
  next
    case True
    have d: "distinct (cache_keys ?st)"
      by (simp add: snoc distinct_most_recent)
    have e: "[] \<notin> set (cache_keys ?st)"
      using set_most_recent [of MAX_LIMITER_CACHE_SIZE "keys_used calls"] keys_used_not_Nil [of calls]
      by (auto simp: snoc)
    from cache_keys_step [OF True d e] True show ?thesis
      by (simp add: getLimiter_calls_snoc keys_used_snoc most_recent_use snoc)
  qed
qed

lemma reachable_keys:
  "distinct (cache_keys (getLimiter_calls calls initial_state))"
  "[] \<notin> set (cache_keys (getLimiter_calls calls initial_state))"
  "length (cache_keys (getLimiter_calls calls initial_state)) \<le> MAX_LIMITER_CACHE_SIZE"
  using set_most_recent [of MAX_LIMITER_CACHE_SIZE "keys_used calls"] keys_used_not_Nil [of calls]
  by (auto simp: cache_keys_run distinct_most_recent length_most_recent)

lemma remdups_append_split:
  "remdups (xs @ zs) = remdups (filter (\<lambda>x. x \<notin> set zs) xs) @ remdups zs"
  by (induction xs) auto

lemma recent_member:
  assumes "card (set ys - {k}) < n"
  shows "k \<in> set (most_recent n (xs @ k # ys))"
proof -
  define u where "u = remdups (filter (\<lambda>x. x \<notin> set (k # ys)) xs)"
  define v where "v = remdups (k # ys)"
  have r: "remdups (xs @ k # ys) = u @ v"
    unfolding u_def v_def by (rule remdups_append_split)
  have "length v = card (insert k (set ys))"
    unfolding v_def by (simp only: length_remdups_card_conv list.set)
  also have "\<dots> = Suc (card (set ys - {k}))"
    by (simp add: card.insert_remove)
  finally have lv: "length v \<le> n" using assms by simp
  have kv: "k \<in> set v" by (simp add: v_def del: remdups.simps)
  have "drop (length (u @ v) - n) (u @ v) = drop (length (u @ v) - n) u @ v"
    using lv by simp
  then show ?thesis
    using kv by (simp add: most_recent_def Let_def r del: drop_append)
qed

lemma Map_get_snoc_same: "k \<notin> fst ` set m \<Longrightarrow> Map_get (m @ [(k, v)]) k = Some v"
  unfolding Map_get_def by (induction m) auto

lemma Map_get_snoc_other: "k \<noteq> k' \<Longrightarrow> Map_get (m @ [(k', v)]) k = Map_get m k"
  unfolding Map_get_def by (induction m) auto

lemma Map_get_delete_other: "k \<noteq> k' \<Longrightarrow> Map_get (Map_delete m k') k = Map_get m k"
  unfolding Map_get_def
proof (induction m)
  case Nil
  then show ?case by simp
next
  case (Cons e m)
  then show ?case by (cases e) auto
qed

lemma Map_get_tl:
  "distinct (map fst m) \<Longrightarrow> k \<in> fst ` set (tl m) \<Longrightarrow> Map_get (tl m) k = Map_get m k"
  unfolding Map_get_def by (cases m) (auto simp: image_iff)

lemma getLimiter_returns_cached:
  assumes "within_bounds args" and "distinct (cache_keys st)" and "[] \<notin> set (cache_keys st)"
  shows "\<exists>limiter. fst (getLimiter args st) = Inr limiter \<and>
           Map_get (limiterCache (snd (getLimiter args st))) (cacheKey args) = Some limiter \<and>
           last (limiterCache (snd (getLimiter args st))) = (cacheKey args, limiter)"
proof (cases "Map_get (limiterCache st) (cacheKey args)")
  case None
  then have a: "cacheKey args \<notin> fst ` set (limiterCache st)"
    by (simp add: Map_get_None)
  then have b: "cacheKey args \<notin> fst ` set (tl (limiterCache st))"
    by (cases "limiterCache st") auto
  show ?thesis
    using getLimiter_miss [OF assms(1) None] assms(2,3) a b
    by (simp add: cache_keys_def Map_get_snoc_same)
next
  case (Some limiter)
  have "cacheKey args \<notin> fst ` set (Map_delete (limiterCache st) (cacheKey args))"
    by (auto simp: in_Map_delete)
  then show ?thesis
    using getLimiter_hit [OF assms(1) Some]
    by (simp add: Map_get_snoc_same)
qed

lemma getLimiter_keeps_other:
  assumes "within_bounds args" and "distinct (cache_keys st)" and "[] \<notin> set (cache_keys st)"
    and "k \<noteq> cacheKey args" and "k \<in> set (cache_keys (snd (getLimiter args st)))"
  shows "Map_get (limiterCache (snd (getLimiter args st))) k = Map_get (limiterCache st) k"
proof (cases "Map_get (limiterCache st) (cacheKey args)")
  case None
  have st': "limiterCache (snd (getLimiter args st))
      = (if length (limiterCache st) \<ge> MAX_LIMITER_CACHE_SIZE
         then tl (limiterCache st) else limiterCache st)
        @ [(cacheKey args,
            \<lparr>ident = constructed st, opt_duration = duration args, opt_points = limit args\<rparr>)]"
    using getLimiter_miss [OF assms(1) None] assms(2,3) by (simp add: cache_keys_def)
  show ?thesis
  proof (cases "length (limiterCache st) \<ge> MAX_LIMITER_CACHE_SIZE")
    case True
    with st' assms(4,5) have "k \<in> fst ` set (tl (limiterCache st))"
      by (auto simp: cache_keys_def)
    then have "Map_get (tl (limiterCache st)) k = Map_get (limiterCache st) k"
      using assms(2) by (simp add: Map_get_tl cache_keys_def)
    with True st' assms(4) show ?thesis
      by (simp add: Map_get_snoc_other)
  next
    case False
    with st' assms(4) show ?thesis
      by (simp add: Map_get_snoc_other)
  qed
next
  case (Some limiter)
  from getLimiter_hit [OF assms(1) Some] assms(4) show ?thesis
    by (simp add: Map_get_snoc_other Map_get_delete_other)
qed

lemma positive_integer_uptoE:
  assumes "positive_integer_upto n b"
  obtains i where "n = JInt i" and "0 < i" and "i \<le> b"
  using assms by (cases n) auto

lemma cacheKey_inj:
  assumes "within_bounds a" and "within_bounds b" and "cacheKey a = cacheKey b"
  shows "a = b"
proof -
  from assms(1) obtain la da where a: "limit a = JInt la" "duration a = JInt da" "0 < la" "0 < da"
    unfolding within_bounds_def by (elim conjE positive_integer_uptoE)
  from assms(2) obtain lb db where b: "limit b = JInt lb" "duration b = JInt db" "0 < lb" "0 < db"
    unfolding within_bounds_def by (elim conjE positive_integer_uptoE)
  have c: "CHR '':'' \<notin> set (show_nat n)" for n
    by (rule show_nat_no_letter) simp
  from assms(3) a b
  have "show_nat (nat da) @ CHR '':'' # show_nat (nat la)
        = show_nat (nat db) @ CHR '':'' # show_nat (nat lb)"
    by (simp add: cacheKey_def)
  then have "show_nat (nat da) = show_nat (nat db) \<and> show_nat (nat la) = show_nat (nat lb)"
    by (rule append_sep_eq [OF c c])
  then have "nat da = nat db" and "nat la = nat lb"
    by (auto dest: show_nat_inj)
  with a b have "duration a = duration b" and "limit a = limit b" by simp_all
  then show ?thesis by simp
qed

lemma keys_used_append: "keys_used (xs @ ys) = keys_used xs @ keys_used ys"
  by (simp add: keys_used_def)

lemma keys_used_Cons:
  "within_bounds a \<Longrightarrow> keys_used (a # ys) = cacheKey a # keys_used ys"
  by (simp add: keys_used_def)

lemma state_after_snoc: "state_after (calls @ [args]) = snd (getLimiter args (state_after calls))"
  by (simp add: state_after_def getLimiter_calls_snoc)

lemma state_after_keys:
  "distinct (cache_keys (state_after calls))" "[] \<notin> set (cache_keys (state_after calls))"
  unfolding state_after_def by (rule reachable_keys)+

lemma limiter_persists:
  assumes a: "within_bounds a"
    and l1: "fst (getLimiter a (state_after before)) = Inr l1"
  shows "card (set (keys_used between) - {cacheKey a}) < MAX_LIMITER_CACHE_SIZE \<Longrightarrow>
         Map_get (limiterCache (state_after (before @ a # between))) (cacheKey a) = Some l1"
proof (induction between rule: rev_induct)
  case Nil
  from getLimiter_returns_cached [OF a state_after_keys [of before]] l1
  show ?case using state_after_snoc [of before a] by auto
next
  case (snoc c between)
  let ?S = "state_after (before @ a # between)"
  have e: "before @ a # between @ [c] = (before @ a # between) @ [c]" by simp
  have st: "state_after (before @ a # between @ [c]) = snd (getLimiter c ?S)"
    by (simp only: e state_after_snoc)
  have "set (keys_used between) - {cacheKey a} \<subseteq> set (keys_used (between @ [c])) - {cacheKey a}"
    by (auto simp: keys_used_append)
  then have "card (set (keys_used between) - {cacheKey a})
      \<le> card (set (keys_used (between @ [c])) - {cacheKey a})"
    by (intro card_mono) auto
  with snoc have IH: "Map_get (limiterCache ?S) (cacheKey a) = Some l1" by simp
  show ?case
  proof (cases "within_bounds c")
    case False
    then show ?thesis
      using IH by (simp add: st getLimiter_invalid_state)
  next
    case c: True
    show ?thesis
    proof (cases "cacheKey c = cacheKey a")
      case True
      with IH have h: "Map_get (limiterCache ?S) (cacheKey c) = Some l1" by simp
      have "cacheKey c \<notin> fst ` set (Map_delete (limiterCache ?S) (cacheKey c))"
        by (auto simp: in_Map_delete)
      then have "Map_get (limiterCache (snd (getLimiter c ?S))) (cacheKey c) = Some l1"
        using getLimiter_hit [OF c h] by (simp add: Map_get_snoc_same)
      then show ?thesis by (simp add: st True)
    next
      case False
      have "cache_keys (state_after (before @ a # between @ [c]))
          = most_recent MAX_LIMITER_CACHE_SIZE
              (keys_used before @ cacheKey a # keys_used (between @ [c]))"
        unfolding state_after_def cache_keys_run
        using a by (simp add: keys_used_append keys_used_Cons)
      then have "cacheKey a \<in> set (cache_keys (snd (getLimiter c ?S)))"
        using recent_member [OF snoc.prems, of "keys_used before"]
        by (simp add: st)
      from getLimiter_keeps_other [OF c state_after_keys _ this] False IH
      show ?thesis by (simp add: st)
    qed
  qed
qed

lemma Map_delete_filter: "Map_delete m k = filter (\<lambda>e. fst e \<noteq> k) m"
proof (induction m)
  case Nil
  then show ?case by simp
next
  case (Cons e m)
  then show ?case by (cases e) auto
qed

lemma in_set_tl: "e \<in> set (tl m) \<Longrightarrow> e \<in> set m"
  by (cases m) auto

lemma getLimiter_step_cases:
  assumes "within_bounds args" and "distinct (cache_keys st)" and "[] \<notin> set (cache_keys st)"
  shows "(\<exists>limiter. (cacheKey args, limiter) \<in> set (limiterCache st) \<and>
            fst (getLimiter args st) = Inr limiter \<and>
            limiterCache (snd (getLimiter args st))
              = filter (\<lambda>e. fst e \<noteq> cacheKey args) (limiterCache st) @ [(cacheKey args, limiter)] \<and>
            constructed (snd (getLimiter args st)) = constructed st) \<or>
         (\<exists>limiter old. ident limiter = constructed st \<and>
            cacheKey args \<notin> fst ` set (limiterCache st) \<and>
            fst (getLimiter args st) = Inr limiter \<and>
            old = (if MAX_LIMITER_CACHE_SIZE \<le> length (limiterCache st)
                   then tl (limiterCache st) else limiterCache st) \<and>
            limiterCache (snd (getLimiter args st)) = old @ [(cacheKey args, limiter)] \<and>
            constructed (snd (getLimiter args st)) = Suc (constructed st))"
proof (cases "Map_get (limiterCache st) (cacheKey args)")
  case None
  show ?thesis
    using getLimiter_miss [OF assms(1) None] assms(2,3) None
    by (auto simp: cache_keys_def Map_get_None)
next
  case (Some limiter)
  show ?thesis
    using getLimiter_hit [OF assms(1) Some] Map_get_Some [OF Some]
    by (simp add: Map_delete_filter)
qed

lemma idents_ok_step:
  assumes "distinct (cache_keys st)" and "[] \<notin> set (cache_keys st)" and ok: "idents_ok st"
  shows "idents_ok (snd (getLimiter args st))"
proof (cases "within_bounds args")
  case False
  then show ?thesis using ok by (simp add: getLimiter_invalid_state)
next
  case True
  let ?f = "\<lambda>e. ident (snd e)"
  let ?m = "limiterCache st"
  from ok have d: "distinct (map ?f ?m)" and b: "\<forall>e \<in> set ?m. ?f e < constructed st"
    by (simp_all add: idents_ok_def)
  from getLimiter_step_cases [OF True assms(1,2)] show ?thesis
  proof (elim disjE exE conjE)
    fix limiter
    assume m: "(cacheKey args, limiter) \<in> set ?m"
      and c: "limiterCache (snd (getLimiter args st))
                = filter (\<lambda>e. fst e \<noteq> cacheKey args) ?m @ [(cacheKey args, limiter)]"
      and n: "constructed (snd (getLimiter args st)) = constructed st"
    have inj: "inj_on ?f (set ?m)" using d by (simp add: distinct_map)
    have "?f (cacheKey args, limiter) \<notin> ?f ` set (filter (\<lambda>e. fst e \<noteq> cacheKey args) ?m)"
    proof
      assume "?f (cacheKey args, limiter) \<in> ?f ` set (filter (\<lambda>e. fst e \<noteq> cacheKey args) ?m)"
      then obtain e where e: "e \<in> set ?m" "fst e \<noteq> cacheKey args" "?f e = ?f (cacheKey args, limiter)"
        by auto
      from inj_onD [OF inj e(3) e(1) m] have "e = (cacheKey args, limiter)" .
      with e(2) show False by simp
    qed
    moreover have "distinct (map ?f (filter (\<lambda>e. fst e \<noteq> cacheKey args) ?m))"
      using d by (rule distinct_map_filter)
    ultimately have "distinct (map ?f (limiterCache (snd (getLimiter args st))))"
      by (simp add: c)
    moreover have "\<forall>e \<in> set (limiterCache (snd (getLimiter args st))).
        ?f e < constructed (snd (getLimiter args st))"
      using b m by (auto simp: c n)
    ultimately show ?thesis by (simp add: idents_ok_def)
  next
    fix limiter old
    assume i: "ident limiter = constructed st"
      and o: "old = (if MAX_LIMITER_CACHE_SIZE \<le> length ?m then tl ?m else ?m)"
      and c: "limiterCache (snd (getLimiter args st)) = old @ [(cacheKey args, limiter)]"
      and n: "constructed (snd (getLimiter args st)) = Suc (constructed st)"
    from o have sub: "set old \<subseteq> set ?m" by (auto dest: in_set_tl split: if_splits)
    from o d have dold: "distinct (map ?f old)" by (auto simp: map_tl distinct_tl split: if_splits)
    from sub b have lt: "\<forall>e \<in> set old. ?f e < constructed st" by auto
    then have "?f (cacheKey args, limiter) \<notin> ?f ` set old" using i by auto
    with dold have "distinct (map ?f (limiterCache (snd (getLimiter args st))))"
      by (simp add: c)
    moreover have "\<forall>e \<in> set (limiterCache (snd (getLimiter args st))).
        ?f e < constructed (snd (getLimiter args st))"
      using lt i by (auto simp: c n less_Suc_eq)
    ultimately show ?thesis by (simp add: idents_ok_def)
  qed
qed

lemma idents_ok_reachable: "idents_ok (state_after calls)"
proof (induction calls rule: rev_induct)
  case Nil
  show ?case by (simp add: state_after_def idents_ok_def initial_state_def)
next
  case (snoc args calls)
  then show ?case
    using idents_ok_step [OF state_after_keys [of calls]] by (simp add: state_after_snoc)
qed

lemma entries_later:
  "e \<in> set (limiterCache (state_after (xs @ ys))) \<Longrightarrow>
   e \<in> set (limiterCache (state_after xs)) \<or> constructed (state_after xs) \<le> ident (snd e)"
  and constructed_later: "constructed (state_after xs) \<le> constructed (state_after (xs @ ys))"
proof (induction ys arbitrary: e rule: rev_induct)
  case Nil
  { case 1 then show ?case by simp }
  { case 2 show ?case by simp }
next
  case (snoc args ys)
  let ?S = "state_after (xs @ ys)"
  have st: "state_after (xs @ ys @ [args]) = snd (getLimiter args ?S)"
    using state_after_snoc [of "xs @ ys" args] by simp
  { case 1
    show ?case
    proof (cases "within_bounds args")
      case False
      with 1 snoc(1) show ?thesis by (simp add: st getLimiter_invalid_state)
    next
      case True
      from getLimiter_step_cases [OF True state_after_keys [of "xs @ ys"]] 1
      have "e \<in> set (limiterCache ?S) \<or> ident (snd e) = constructed ?S"
        by (auto simp: st dest: in_set_tl split: if_splits)
      then show ?thesis using snoc(1) [of e] snoc(2) by auto
    qed }
  { case 2
    show ?case
    proof (cases "within_bounds args")
      case False
      with snoc(2) show ?thesis by (simp add: st getLimiter_invalid_state)
    next
      case True
      from getLimiter_step_cases [OF True state_after_keys [of "xs @ ys"]]
      have "constructed ?S \<le> constructed (snd (getLimiter args ?S))" by auto
      with snoc(2) show ?thesis by (simp add: st)
    qed }
qed

lemma eq_value_of_key:
  "distinct (map fst m) \<Longrightarrow> (k, v) \<in> set m \<Longrightarrow> (k, w) \<in> set m \<Longrightarrow> v = w"
  by (rule eq_key_imp_eq_value)

lemma state_after_size: "Map_size (limiterCache (state_after calls)) \<le> MAX_LIMITER_CACHE_SIZE"
  using reachable_keys(3) [of calls] by (simp add: Map_size_def cache_keys_def state_after_def)

lemma returned_is_cached:
  assumes "within_bounds args" and "fst (getLimiter args (state_after calls)) = Inr limiter"
  shows "(cacheKey args, limiter) \<in> set (limiterCache (state_after (calls @ [args])))"
  using getLimiter_returns_cached [OF assms(1) state_after_keys [of calls]] assms(2)
  by (auto simp: state_after_snoc dest: Map_get_Some)

lemma limit_args_within: "0 < n \<Longrightarrow> n \<le> 1000000 \<Longrightarrow> within_bounds (limit_args n)"
  by (simp add: limit_args_def within_bounds_def)

lemma limit_args_inj: "limit_args n = limit_args m \<Longrightarrow> n = m"
  by (simp add: limit_args_def)

lemma limit_keys_inj:
  assumes "0 < n" "n \<le> 1000000" "0 < m" "m \<le> 1000000"
    and "cacheKey (limit_args n) = cacheKey (limit_args m)"
  shows "n = m"
  using cacheKey_inj [OF limit_args_within limit_args_within, of n m] assms limit_args_inj
  by blast

lemma keys_used_limit_args:
  "0 < a \<Longrightarrow> b \<le> 1000001 \<Longrightarrow>
   keys_used (map limit_args [a..<b]) = map (\<lambda>n. cacheKey (limit_args n)) [a..<b]"
  unfolding keys_used_def
  by (subst filter_True) (auto simp: limit_args_within comp_def)

lemma distinct_limit_keys:
  assumes "0 < a" and "b \<le> 1000001"
  shows "distinct (map (\<lambda>n. cacheKey (limit_args n)) [a..<b])"
proof -
  have "inj_on (\<lambda>n. cacheKey (limit_args n)) (set [a..<b])"
    using assms by (intro inj_onI limit_keys_inj) auto
  then show ?thesis by (simp add: distinct_map)
qed

lemma most_recent_distinct: "distinct uses \<Longrightarrow> most_recent n uses = drop (length uses - n) uses"
  by (simp add: most_recent_def Let_def distinct_remdups_id)

lemma cache_keys_limit_args:
  assumes "0 < a" and "b \<le> 1000001"
  shows "cache_keys (state_after (map limit_args [a..<b]))
           = drop (b - a - MAX_LIMITER_CACHE_SIZE) (map (\<lambda>n. cacheKey (limit_args n)) [a..<b])"
  unfolding state_after_def cache_keys_run keys_used_limit_args [OF assms]
  using distinct_limit_keys [OF assms] by (simp add: most_recent_distinct)

lemma constructed_limit_args:
  assumes "0 < a" and "b \<le> 1000001"
  shows "constructed (state_after (map limit_args [a..<b])) = b - a"
  using assms(2)
proof (induction b)
  case 0
  show ?case by (simp add: state_after_def initial_state_def)
next
  case (Suc b)
  show ?case
  proof (cases "a \<le> b")
    case False
    then show ?thesis by (simp add: state_after_def initial_state_def)
  next
    case True
    let ?S = "state_after (map limit_args [a..<b])"
    from Suc have IH: "constructed ?S = b - a" and b: "b \<le> 1000001" "b \<le> 1000000" by simp_all
    have v: "within_bounds (limit_args b)"
      using assms(1) True b by (intro limit_args_within) auto
    have "cacheKey (limit_args b) \<notin> set (map (\<lambda>n. cacheKey (limit_args n)) [a..<b])"
    proof
      assume "cacheKey (limit_args b) \<in> set (map (\<lambda>n. cacheKey (limit_args n)) [a..<b])"
      then obtain n where n: "a \<le> n" "n < b" "cacheKey (limit_args b) = cacheKey (limit_args n)"
        by auto
      from limit_keys_inj [OF _ _ _ _ n(3)] n(1,2) assms(1) True b have "b = n" by auto
      with n(2) show False by simp
    qed
    then have "cacheKey (limit_args b) \<notin> set (cache_keys ?S)"
      unfolding cache_keys_limit_args [OF assms(1) b(1)] by (auto dest: in_set_dropD)
    then have "Map_get (limiterCache ?S) (cacheKey (limit_args b)) = None"
      by (simp add: Map_get_None cache_keys_def)
    from getLimiter_miss [OF v this] state_after_keys [of "map limit_args [a..<b]"]
    have "constructed (snd (getLimiter (limit_args b) ?S)) = Suc (constructed ?S)"
      by (simp add: cache_keys_def)
    with True IH show ?thesis
      by (simp add: state_after_snoc Suc_diff_le)
  qed
qed

lemma upt_3_104: "[3..<104] = 3 # [4..<104]"
  by simp

lemma one_and_hundred: "limit_args 3 # hundred_others = map limit_args [3..<104]"
  by (simp only: hundred_others_def upt_3_104 list.map)

lemma third_key_fresh:
  "cacheKey (limit_args 3) \<notin> set (map (\<lambda>n. cacheKey (limit_args n)) [4..<104])"
proof -
  have d: "distinct (map (\<lambda>n. cacheKey (limit_args n)) [3..<104])"
    by (rule distinct_limit_keys) simp_all
  from d [unfolded upt_3_104 list.map distinct.simps] show ?thesis by (rule conjunct1)
qed

lemma first_key_evicted:
  "cacheKey (limit_args 3) \<notin> set (cache_keys (state_after (limit_args 3 # hundred_others)))"
proof -
  have "cache_keys (state_after (map limit_args [3..<104]))
      = drop (Suc 0) (map (\<lambda>n. cacheKey (limit_args n)) [3..<104])"
    by (subst cache_keys_limit_args) (simp_all add: MAX_LIMITER_CACHE_SIZE_def)
  also have "\<dots> = map (\<lambda>n. cacheKey (limit_args n)) [4..<104]"
    by (simp only: upt_3_104 list.map drop_Suc_Cons drop_0)
  finally have keys: "cache_keys (state_after (map limit_args [3..<104]))
      = map (\<lambda>n. cacheKey (limit_args n)) [4..<104]" .
  show ?thesis unfolding one_and_hundred keys by (rule third_key_fresh)
qed

lemma limit_args_fields: "duration (limit_args n) = JInt 60" "limit (limit_args n) = JInt (int n)"
  by (simp_all add: limit_args_def)

lemma within_sample: "within_bounds sample_args"
  using validate_sample validate_iff by blast

section \<open>Validation\<close>

text \<open>
  C1. Validation succeeds exactly when \<open>limit\<close> and \<open>duration\<close> are positive integers
  with \<open>limit \<le> 1000000\<close> and \<open>duration \<le> 31536000\<close>. Outside those bounds it throws an
  \<^verbatim>\<open>Error\<close>, and the wrapped resolver never calls the original resolver, whatever the
  key generator, the limiter and the resolver do.
\<close>

theorem validation_bounds:
  "(validateDirectiveArgs args = Inr () \<longleftrightarrow> within_bounds args) \<and>
   (\<not> within_bounds args \<longrightarrow>
      (\<exists>m. validateDirectiveArgs args = Inl (Error m)) \<and>
      ResolveCall \<notin> set (calls_of
        (fieldConfig_resolve keyGenerator consume resolve args source resolverArgs context info st)))"
proof (intro conjI impI)
  show "validateDirectiveArgs args = Inr () \<longleftrightarrow> within_bounds args"
    by (rule validate_iff)
next
  assume "\<not> within_bounds args"
  then show "\<exists>m. validateDirectiveArgs args = Inl (Error m)"
    using validate_error by blast
next
  assume "\<not> within_bounds args"
  then obtain m where "getLimiter args st = (Inl (Error m), st)"
    using getLimiter_invalid by blast
  then show "ResolveCall \<notin> set (calls_of
        (fieldConfig_resolve keyGenerator consume resolve args source resolverArgs context info st))"
    by (simp add: fieldConfig_resolve_def calls_of_def split: sum.splits)
qed

theorem validation_bounds_witness:
  "validateDirectiveArgs \<lparr>duration = JInt 60, limit = JInt 5\<rparr> = Inr () \<and>
   within_bounds \<lparr>duration = JInt 60, limit = JInt 5\<rparr> \<and>
   \<not> within_bounds \<lparr>duration = JInt 60, limit = JInt 1000001\<rparr> \<and>
   validateDirectiveArgs \<lparr>duration = JInt 60, limit = JInt 1000001\<rparr> \<noteq> Inr () \<and>
   ResolveCall \<notin> set (calls_of
     (fieldConfig_resolve default_keys consume_resolves resolver_success
        \<lparr>duration = JInt 60, limit = JInt 1000001\<rparr> () () () Query_test initial_state))"
proof -
  have v: "within_bounds \<lparr>duration = JInt 60, limit = JInt 5\<rparr>"
    by (simp add: within_bounds_def)
  have i: "\<not> within_bounds \<lparr>duration = JInt 60, limit = JInt 1000001\<rparr>"
    by (simp add: within_bounds_def)
  from v i
    validation_bounds [of "\<lparr>duration = JInt 60, limit = JInt 5\<rparr>"]
    validation_bounds [of "\<lparr>duration = JInt 60, limit = JInt 1000001\<rparr>"
      default_keys consume_resolves resolver_success "()" "()" "()" Query_test initial_state]
  show ?thesis by auto
qed

section \<open>Key generators\<close>

text \<open>
  C9. The default key is the parent type name, a dot and the field name: it depends on
  these two names only (the directive arguments, the source, the resolver arguments
  and the context play no part), and two invocations get the same key exactly when
  both names agree. The parent type name of a \<^verbatim>\<open>GraphQLResolveInfo\<close> is a GraphQL name,
  and a GraphQL name has no dot (\<open>graphql_name_no_dot\<close>); that the parent type names
  have no dot is all the theorem asks of the two invocations.
\<close>

theorem default_key_injective:
  assumes "CHR ''.'' \<notin> set (parentType_name info1)" and "CHR ''.'' \<notin> set (parentType_name info2)"
  shows "defaultKeyGenerator args1 source1 rargs1 context1 info1
           = defaultKeyGenerator args2 source2 rargs2 context2 info2
         \<longleftrightarrow> parentType_name info1 = parentType_name info2 \<and> fieldName info1 = fieldName info2"
  using assms append_sep_eq [of "CHR ''.''" "parentType_name info1" "parentType_name info2"
      "fieldName info1" "fieldName info2"]
  by (auto simp: defaultKeyGenerator_def)

theorem default_key_injective_witness:
  "graphql_name (parentType_name Query_test) \<and>
   CHR ''.'' \<notin> set (parentType_name Query_test) \<and>
   CHR ''.'' \<notin> set (parentType_name (Query_test\<lparr>fieldName := ''field2''\<rparr>)) \<and>
   defaultKeyGenerator sample_args () () () Query_test
     \<noteq> defaultKeyGenerator sample_args () () () (Query_test\<lparr>fieldName := ''field2''\<rparr>) \<and>
   defaultKeyGenerator sample_args () () () Query_test
     = defaultKeyGenerator (sample_args\<lparr>limit := JInt 7\<rparr>) () () () Query_test"
proof -
  have g: "graphql_name (parentType_name Query_test)"
    using Query_name by (simp add: Query_test_def)
  then have a: "CHR ''.'' \<notin> set (parentType_name Query_test)"
    by (rule graphql_name_no_dot)
  then have b: "CHR ''.'' \<notin> set (parentType_name (Query_test\<lparr>fieldName := ''field2''\<rparr>))"
    by simp
  from default_key_injective [OF a b, of sample_args "()" "()" "()" sample_args "()" "()" "()"]
    default_key_injective [OF a a, of sample_args "()" "()" "()" "sample_args\<lparr>limit := JInt 7\<rparr>" "()" "()" "()"]
    g a b
  show ?thesis by (simp add: Query_test_def)
qed

text \<open>
  C10. When every identifier handed to the composite key generator is \<^verbatim>\<open>null\<close> or
  \<^verbatim>\<open>undefined\<close>, the key is a colon followed by the parent type name, a dot and the
  field name.
\<close>

theorem composite_key_all_null:
  assumes "\<forall>(name, v) \<in> set (getIdentifiers context). \<not> not_nullish v"
  shows "createCompositeKeyGenerator getIdentifiers args source rargs context info
           = '':'' @ parentType_name info @ ''.'' @ fieldName info"
proof -
  have "filter (\<lambda>(key, v). not_nullish v) (getIdentifiers context) = []"
    using assms by (auto simp: filter_empty_conv)
  then show ?thesis
    by (simp add: createCompositeKeyGenerator_def identifierParts_def)
qed

theorem composite_key_all_null_witness:
  "(\<not> not_nullish JUndefined \<and> \<not> not_nullish JNull) \<and>
   createCompositeKeyGenerator all_null_identifiers sample_args () () () Query_test = '':Query.test''"
proof -
  have h: "\<forall>(name, v) \<in> set (all_null_identifiers ()). \<not> not_nullish v"
    by (simp add: all_null_identifiers_def)
  from h composite_key_all_null [of all_null_identifiers "()" sample_args "()" "()" Query_test]
  show ?thesis by (simp add: Query_test_def)
qed

section \<open>The wrapped resolver: rejections of consume\<close>

text \<open>
  C2. When \<^verbatim>\<open>consume\<close> rejects with a value whose \<^verbatim>\<open>msBeforeNext\<close> is a number, the
  wrapped resolver throws the \<^verbatim>\<open>RATE_LIMITED\<close> GraphQL error (status 429) whose
  \<^verbatim>\<open>retryAfter\<close> is \<^verbatim>\<open>Math.ceil(msBeforeNext / 1000)\<close>, and the original resolver is not
  called. For every finite \<^verbatim>\<open>msBeforeNext\<close>, whole or fractional, the hint is the ceiling
  of its thousandth; for \<^verbatim>\<open>NaN\<close> and the two infinities it is \<^verbatim>\<open>msBeforeNext\<close> itself,
  as \<^verbatim>\<open>Math.ceil\<close> has it.
\<close>

theorem quota_exceeded_outcome:
  assumes "keyGenerator args source resolverArgs context info = Inr key"
    and "getLimiter args st = (Inr limiter, st')"
    and "consume limiter key = Inl rateLimitError"
    and "numeric_msBeforeNext rateLimitError = Some ms"
  shows "outcome_of (fieldConfig_resolve keyGenerator consume resolve args source resolverArgs context info st)
           = Inl (GraphQLError ''Rate limit exceeded''
                   [(''code'', VString ''RATE_LIMITED''),
                    (''http'', VObject [(''status'', VNumber (JInt 429))]),
                    (''retryAfter'',
                     VNumber (if is_finite ms then JInt \<lceil>number_value ms / 1000\<rceil> else ms))]) \<and>
         ResolveCall \<notin> set (calls_of
           (fieldConfig_resolve keyGenerator consume resolve args source resolverArgs context info st))"
  using assms quota_exceeded_passes [of ms]
  by (simp add: fieldConfig_resolve_def outcome_of_def calls_of_def consume_catch_def
      quota_exceeded_def ceil_div_1000_eq del: ceil_div_1000.simps)

theorem quota_exceeded_outcome_witness:
  "default_keys sample_args () () () Query_test = Inr ''Query.test'' \<and>
   fst (getLimiter sample_args initial_state) = Inr first_limiter \<and>
   consume_rejects quota_rejection first_limiter ''Query.test'' = Inl quota_rejection \<and>
   numeric_msBeforeNext quota_rejection = Some (JInt 5000) \<and>
   outcome_of (fieldConfig_resolve default_keys (consume_rejects quota_rejection) resolver_success
       sample_args () () () Query_test initial_state)
     = Inl (GraphQLError ''Rate limit exceeded''
             [(''code'', VString ''RATE_LIMITED''),
              (''http'', VObject [(''status'', VNumber (JInt 429))]),
              (''retryAfter'', VNumber (JInt 5))]) \<and>
   ResolveCall \<notin> set (calls_of
     (fieldConfig_resolve default_keys (consume_rejects quota_rejection) resolver_success
        sample_args () () () Query_test initial_state)) \<and>
   numeric_msBeforeNext fractional_rejection = Some (JFrac False 1500 [5]) \<and>
   outcome_of (fieldConfig_resolve default_keys (consume_rejects fractional_rejection) resolver_success
       sample_args () () () Query_test initial_state)
     = Inl (GraphQLError ''Rate limit exceeded''
             [(''code'', VString ''RATE_LIMITED''),
              (''http'', VObject [(''status'', VNumber (JInt 429))]),
              (''retryAfter'', VNumber (JInt 2))])"
proof -
  have r: "consume_rejects quota_rejection first_limiter ''Query.test'' = Inl quota_rejection"
    and r': "consume_rejects fractional_rejection first_limiter ''Query.test'' = Inl fractional_rejection"
    by (simp_all add: consume_rejects_def)
  have m: "numeric_msBeforeNext quota_rejection = Some (JInt 5000)"
    and m': "numeric_msBeforeNext fractional_rejection = Some (JFrac False 1500 [5])"
    by (simp_all add: quota_rejection_def fractional_rejection_def)
  have c: "\<lceil>number_value (JInt 5000) / 1000\<rceil> = 5"
    and c': "\<lceil>number_value (JFrac False 1500 [5]) / 1000\<rceil> = 2"
    by simp_all
  from quota_exceeded_outcome [of default_keys sample_args "()" "()" "()" Query_test "''Query.test''"
      initial_state first_limiter first_state "consume_rejects quota_rejection" quota_rejection
      "JInt 5000" resolver_success]
    quota_exceeded_outcome [of default_keys sample_args "()" "()" "()" Query_test "''Query.test''"
      initial_state first_limiter first_state "consume_rejects fractional_rejection"
      fractional_rejection "JFrac False 1500 [5]" resolver_success]
    default_keys_sample getLimiter_sample r r' m m' c c'
  show ?thesis by simp
qed

text \<open>
  C3 does not hold of the code. The outer \<^verbatim>\<open>catch\<close> recognises a failure of the store
  by the text \<^verbatim>\<open>Redis\<close> in the message of the error, where its comments speak of Redis
  connection errors. The connection failure that Node reports as
  \<^verbatim>\<open>connect ECONNREFUSED 127.0.0.1:6379\<close> has no numeric \<^verbatim>\<open>msBeforeNext\<close> and no such
  text: the wrapped resolver rethrows it as it is, and no
  \<^verbatim>\<open>RATE_LIMIT_SERVICE_ERROR\<close> is raised.
\<close>

theorem plain_rejection_rethrown:
  "numeric_msBeforeNext connection_refused = None \<and>
   outcome_of (fieldConfig_resolve default_keys (consume_rejects connection_refused) resolver_success
       sample_args () () () Query_test initial_state)
     = Inl (Error ''connect ECONNREFUSED 127.0.0.1:6379'')"
  using getLimiter_sample
  by (simp add: fieldConfig_resolve_def outcome_of_def default_keys_sample consume_rejects_def
      consume_catch_def resolve_catch_def connection_refused_def eval_includes)

text \<open>
  C4 does not hold of the code. With valid arguments, a key and a successful
  \<^verbatim>\<open>consume\<close>, an original resolver that throws \<^verbatim>\<open>new Error("Redis cache lookup failed")\<close>
  synchronously has its error replaced by the \<^verbatim>\<open>RATE_LIMIT_SERVICE_ERROR\<close> GraphQL
  error; the same error delivered as a rejected promise passes unchanged.
\<close>

theorem resolver_error_reclassified:
  "outcome_of (fieldConfig_resolve default_keys consume_resolves (resolver_throws redis_lookup_failed)
       sample_args () () () Query_test initial_state)
     = Inl (GraphQLError ''Rate limiting service unavailable''
             [(''code'', VString ''RATE_LIMIT_SERVICE_ERROR''),
              (''http'', VObject [(''status'', VNumber (JInt 503))])]) \<and>
   outcome_of (fieldConfig_resolve default_keys consume_resolves (resolver_rejects redis_lookup_failed)
       sample_args () () () Query_test initial_state)
     = Inl (Error ''Redis cache lookup failed'')"
  using getLimiter_sample
  by (simp add: fieldConfig_resolve_def outcome_of_def default_keys_sample consume_resolves_def
      resolver_throws_def resolver_rejects_def resolve_catch_def redis_lookup_failed_def
      eval_includes service_unavailable_def)

section \<open>The wrapped resolver: order of the steps and shape of the errors\<close>

text \<open>
  C7, as stated, fails: \<^verbatim>\<open>fieldConfig.resolve\<close> calls the key generator first and
  validates afterwards, inside \<^verbatim>\<open>getLimiter\<close>. With the invalid limit \<open>-1\<close> the key
  generator is called, and when it throws, its failure reaches the caller in place of
  the validation error.
\<close>

theorem key_generator_runs_first:
  "\<not> within_bounds negative_limit_args \<and>
   calls_of (fieldConfig_resolve default_keys consume_resolves resolver_success
       negative_limit_args () () () Query_test initial_state) = [KeyGeneratorCall] \<and>
   outcome_of (fieldConfig_resolve failing_keys consume_resolves resolver_success
       negative_limit_args () () () Query_test initial_state) = Inl (Error ''no user in context'')"
  using negative_limit_invalid
  by (simp add: fieldConfig_resolve_def calls_of_def outcome_of_def default_keys_def
      failing_keys_def getLimiter_negative resolve_catch_def eval_includes)

text \<open>
  C7, amended. The key generator runs before the validator. When the directive
  arguments are invalid, the key generator is the only collaborator called and the cache
  is left as it was; if the key generator returns a key, the wrapped resolver fails with
  the validator's \<^verbatim>\<open>Error\<close>; if it throws, the wrapped resolver fails with what the outer
  \<^verbatim>\<open>catch\<close> makes of that failure.
\<close>

theorem invalid_args_after_key:
  assumes "\<not> within_bounds args"
  shows "calls_of (fieldConfig_resolve keyGenerator consume resolve args source resolverArgs context info st)
           = [KeyGeneratorCall] \<and>
         state_of (fieldConfig_resolve keyGenerator consume resolve args source resolverArgs context info st)
           = st \<and>
         (\<forall>key. keyGenerator args source resolverArgs context info = Inr key \<longrightarrow>
            (\<exists>m. validateDirectiveArgs args = Inl (Error m) \<and>
              outcome_of (fieldConfig_resolve keyGenerator consume resolve args source resolverArgs context info st)
                = Inl (Error m))) \<and>
         (\<forall>e. keyGenerator args source resolverArgs context info = Inl e \<longrightarrow>
            outcome_of (fieldConfig_resolve keyGenerator consume resolve args source resolverArgs context info st)
              = Inl (resolve_catch e))"
proof -
  from assms obtain m where v: "validateDirectiveArgs args = Inl (Error m)" and r: "CHR ''R'' \<notin> set m"
    using validate_error by blast
  have g: "getLimiter args st = (Inl (Error m), st)"
    using v by (simp add: getLimiter_def)
  show ?thesis
    using v g resolve_catch_no_R [OF r]
    by (auto simp: fieldConfig_resolve_def calls_of_def state_of_def outcome_of_def split: sum.splits)
qed

theorem invalid_args_after_key_witness:
  "\<not> within_bounds negative_limit_args \<and>
   default_keys negative_limit_args () () () Query_test = Inr ''Query.test'' \<and>
   failing_keys negative_limit_args () () () Query_test = Inl (Error ''no user in context'') \<and>
   calls_of (fieldConfig_resolve default_keys consume_resolves resolver_success
       negative_limit_args () () () Query_test initial_state) = [KeyGeneratorCall] \<and>
   state_of (fieldConfig_resolve default_keys consume_resolves resolver_success
       negative_limit_args () () () Query_test initial_state) = initial_state \<and>
   outcome_of (fieldConfig_resolve default_keys consume_resolves resolver_success
       negative_limit_args () () () Query_test initial_state)
     = Inl (Error ''Invalid rate limit: -1. Must be a positive integer.'') \<and>
   outcome_of (fieldConfig_resolve failing_keys consume_resolves resolver_success
       negative_limit_args () () () Query_test initial_state)
     = Inl (Error ''no user in context'')"
proof -
  have k: "default_keys negative_limit_args () () () Query_test = Inr ''Query.test''"
    by (simp add: default_keys_def defaultKeyGenerator_def Query_test_def)
  have f: "failing_keys negative_limit_args () () () Query_test = Inl (Error ''no user in context'')"
    by (simp add: failing_keys_def)
  have v: "validateDirectiveArgs negative_limit_args
             = Inl (Error ''Invalid rate limit: -1. Must be a positive integer.'')"
    using getLimiter_negative [of initial_state] validate_error [OF negative_limit_invalid]
    by (auto simp: getLimiter_def)
  have c: "resolve_catch (Error ''no user in context'') = Error ''no user in context''"
    by (simp add: resolve_catch_def eval_includes)
  from invalid_args_after_key [OF negative_limit_invalid, of default_keys consume_resolves
      resolver_success "()" "()" "()" Query_test initial_state]
    invalid_args_after_key [OF negative_limit_invalid, of failing_keys consume_resolves
      resolver_success "()" "()" "()" Query_test initial_state]
    negative_limit_invalid k f v c
  show ?thesis by auto
qed

text \<open>
  C8, as stated, fails on the names and on the type of the fields. The classified
  errors carry the status as \<^verbatim>\<open>extensions.http.status\<close> and the retry hint as
  \<^verbatim>\<open>extensions.retryAfter\<close>; they have no \<^verbatim>\<open>httpStatus\<close> and no \<^verbatim>\<open>retryAfterSeconds\<close>,
  so neither of them has the specified shape. And the hint is not always an integer: a
  rejection whose \<^verbatim>\<open>msBeforeNext\<close> is \<^verbatim>\<open>NaN\<close> passes the \<^verbatim>\<open>typeof\<close> test and gives
  \<^verbatim>\<open>retryAfter: NaN\<close>.
\<close>

theorem payload_field_names:
  "outcome_of (fieldConfig_resolve default_keys (consume_rejects quota_rejection) resolver_success
       sample_args () () () Query_test initial_state)
     = Inl (GraphQLError ''Rate limit exceeded''
             [(''code'', VString ''RATE_LIMITED''),
              (''http'', VObject [(''status'', VNumber (JInt 429))]),
              (''retryAfter'', VNumber (JInt 5))]) \<and>
   \<not> specified_payload_shape (GraphQLError ''Rate limit exceeded''
             [(''code'', VString ''RATE_LIMITED''),
              (''http'', VObject [(''status'', VNumber (JInt 429))]),
              (''retryAfter'', VNumber (JInt 5))]) \<and>
   outcome_of (fieldConfig_resolve default_keys (consume_rejects redis_down) resolver_success
       sample_args () () () Query_test initial_state)
     = Inl (GraphQLError ''Rate limiting service unavailable''
             [(''code'', VString ''RATE_LIMIT_SERVICE_ERROR''),
              (''http'', VObject [(''status'', VNumber (JInt 503))])]) \<and>
   \<not> specified_payload_shape (GraphQLError ''Rate limiting service unavailable''
             [(''code'', VString ''RATE_LIMIT_SERVICE_ERROR''),
              (''http'', VObject [(''status'', VNumber (JInt 503))])]) \<and>
   outcome_of (fieldConfig_resolve default_keys (consume_rejects nan_rejection) resolver_success
       sample_args () () () Query_test initial_state)
     = Inl (GraphQLError ''Rate limit exceeded''
             [(''code'', VString ''RATE_LIMITED''),
              (''http'', VObject [(''status'', VNumber (JInt 429))]),
              (''retryAfter'', VNumber JNaN)]) \<and>
   \<not> Number_isInteger JNaN"
  using quota_outcome_sample [of quota_rejection "JInt 5000"]
    quota_outcome_sample [of nan_rejection JNaN] redis_down_sample
  by (simp add: quota_rejection_def nan_rejection_def)

text \<open>
  C8, amended. Every error with which the wrapped resolver fails is a failure of a
  collaborator or of the validator passed on unchanged, a \<^verbatim>\<open>TypeError\<close> raised by the
  test of the outer \<^verbatim>\<open>catch\<close>, or one of the two classified errors, whose payloads are
  exactly these:
  \<^item> for the quota outcome, that is for a rejection of \<^verbatim>\<open>consume\<close> with a numeric
    \<^verbatim>\<open>msBeforeNext\<close>: the message \<^verbatim>\<open>Rate limit exceeded\<close> and the extensions
    \<^verbatim>\<open>code: "RATE_LIMITED"\<close>, \<^verbatim>\<open>http: { status: 429 }\<close> and \<^verbatim>\<open>retryAfter\<close>, a number equal to
    \<^verbatim>\<open>Math.ceil(msBeforeNext / 1000)\<close>: the integer ceiling of the thousandth of
    \<^verbatim>\<open>msBeforeNext\<close> when that is finite, and \<^verbatim>\<open>msBeforeNext\<close> itself when it is \<^verbatim>\<open>NaN\<close>
    or an infinity;
  \<^item> for the service outcome: the message \<^verbatim>\<open>Rate limiting service unavailable\<close> and
    the extensions \<^verbatim>\<open>code: "RATE_LIMIT_SERVICE_ERROR"\<close> and \<^verbatim>\<open>http: { status: 503 }\<close>,
    with no \<^verbatim>\<open>retryAfter\<close>.
\<close>

theorem classified_error_shape:
  assumes "outcome_of (fieldConfig_resolve keyGenerator consume resolve args source resolverArgs context info st)
             = Inl e"
  shows "e = TypeError \<or>
         keyGenerator args source resolverArgs context info = Inl e \<or>
         validateDirectiveArgs args = Inl e \<or>
         (\<exists>limiter key. consume limiter key = Inl e) \<or>
         resolve source resolverArgs context info = Throws e \<or>
         resolve source resolverArgs context info = Rejects e \<or>
         (\<exists>limiter key r ms. consume limiter key = Inl r \<and> numeric_msBeforeNext r = Some ms \<and>
            e = GraphQLError ''Rate limit exceeded''
                  [(''code'', VString ''RATE_LIMITED''),
                   (''http'', VObject [(''status'', VNumber (JInt 429))]),
                   (''retryAfter'',
                    VNumber (if is_finite ms then JInt \<lceil>number_value ms / 1000\<rceil> else ms))]) \<or>
         e = GraphQLError ''Rate limiting service unavailable''
               [(''code'', VString ''RATE_LIMIT_SERVICE_ERROR''),
                (''http'', VObject [(''status'', VNumber (JInt 503))])]"
proof (cases "keyGenerator args source resolverArgs context info")
  case (Inl x)
  then show ?thesis
    using assms resolve_catch_cases [of x]
    by (auto simp: fieldConfig_resolve_def outcome_of_def service_unavailable_def)
next
  case key: (Inr key)
  show ?thesis
  proof (cases "validateDirectiveArgs args")
    case (Inl x)
    then have "getLimiter args st = (Inl x, st)" by (simp add: getLimiter_def)
    then show ?thesis
      using assms key Inl resolve_catch_cases [of x]
      by (auto simp: fieldConfig_resolve_def outcome_of_def service_unavailable_def)
  next
    case (Inr u)
    then obtain limiter st' where g: "getLimiter args st = (Inr limiter, st')"
      using validate_iff [of args] getLimiter_valid [of args st] by auto
    show ?thesis
    proof (cases "consume limiter key")
      case (Inl r)
      then have e: "e = resolve_catch (consume_catch r)"
        using assms key g by (simp add: fieldConfig_resolve_def outcome_of_def)
      from classify_cases [of r] show ?thesis
      proof (elim disjE exE conjE)
        fix ms assume "numeric_msBeforeNext r = Some ms"
          and "resolve_catch (consume_catch r) = quota_exceeded ms"
        then have "consume limiter key = Inl r \<and> numeric_msBeforeNext r = Some ms \<and>
            e = GraphQLError ''Rate limit exceeded''
                  [(''code'', VString ''RATE_LIMITED''),
                   (''http'', VObject [(''status'', VNumber (JInt 429))]),
                   (''retryAfter'',
                    VNumber (if is_finite ms then JInt \<lceil>number_value ms / 1000\<rceil> else ms))]"
          using e Inl by (simp add: quota_exceeded_def ceil_div_1000_eq del: ceil_div_1000.simps)
        then show ?thesis by blast
      qed (use e Inl in \<open>auto simp: service_unavailable_def\<close>)
    next
      case ok: (Inr u')
      show ?thesis
      proof (cases "resolve source resolverArgs context info")
        case (Returns v)
        then show ?thesis using assms key g ok
          by (simp add: fieldConfig_resolve_def outcome_of_def)
      next
        case (Throws x)
        then show ?thesis
          using assms key g ok resolve_catch_cases [of x]
          by (auto simp: fieldConfig_resolve_def outcome_of_def service_unavailable_def)
      next
        case (Rejects x)
        then show ?thesis using assms key g ok
          by (simp add: fieldConfig_resolve_def outcome_of_def)
      qed
    qed
  qed
qed

theorem classified_error_shape_witness:
  "outcome_of (fieldConfig_resolve default_keys (consume_rejects quota_rejection) resolver_success
       sample_args () () () Query_test initial_state)
     = Inl (GraphQLError ''Rate limit exceeded''
             [(''code'', VString ''RATE_LIMITED''),
              (''http'', VObject [(''status'', VNumber (JInt 429))]),
              (''retryAfter'', VNumber (JInt 5))]) \<and>
   outcome_of (fieldConfig_resolve default_keys (consume_rejects fractional_rejection) resolver_success
       sample_args () () () Query_test initial_state)
     = Inl (GraphQLError ''Rate limit exceeded''
             [(''code'', VString ''RATE_LIMITED''),
              (''http'', VObject [(''status'', VNumber (JInt 429))]),
              (''retryAfter'', VNumber (JInt 2))]) \<and>
   outcome_of (fieldConfig_resolve default_keys (consume_rejects infinite_rejection) resolver_success
       sample_args () () () Query_test initial_state)
     = Inl (GraphQLError ''Rate limit exceeded''
             [(''code'', VString ''RATE_LIMITED''),
              (''http'', VObject [(''status'', VNumber (JInt 429))]),
              (''retryAfter'', VNumber JInfinity)]) \<and>
   outcome_of (fieldConfig_resolve default_keys (consume_rejects redis_down) resolver_success
       sample_args () () () Query_test initial_state)
     = Inl (GraphQLError ''Rate limiting service unavailable''
             [(''code'', VString ''RATE_LIMIT_SERVICE_ERROR''),
              (''http'', VObject [(''status'', VNumber (JInt 503))])])"
proof -
  have q: "outcome_of (fieldConfig_resolve default_keys (consume_rejects quota_rejection)
      resolver_success sample_args () () () Query_test initial_state)
     = Inl (GraphQLError ''Rate limit exceeded''
             [(''code'', VString ''RATE_LIMITED''),
              (''http'', VObject [(''status'', VNumber (JInt 429))]),
              (''retryAfter'', VNumber (JInt 5))])"
    using quota_outcome_sample [of quota_rejection "JInt 5000"] by (simp add: quota_rejection_def)
  have f: "outcome_of (fieldConfig_resolve default_keys (consume_rejects fractional_rejection)
      resolver_success sample_args () () () Query_test initial_state)
     = Inl (GraphQLError ''Rate limit exceeded''
             [(''code'', VString ''RATE_LIMITED''),
              (''http'', VObject [(''status'', VNumber (JInt 429))]),
              (''retryAfter'', VNumber (JInt 2))])"
    using quota_outcome_sample [of fractional_rejection "JFrac False 1500 [5]"]
    by (simp add: fractional_rejection_def)
  have i: "outcome_of (fieldConfig_resolve default_keys (consume_rejects infinite_rejection)
      resolver_success sample_args () () () Query_test initial_state)
     = Inl (GraphQLError ''Rate limit exceeded''
             [(''code'', VString ''RATE_LIMITED''),
              (''http'', VObject [(''status'', VNumber (JInt 429))]),
              (''retryAfter'', VNumber JInfinity)])"
    using quota_outcome_sample [of infinite_rejection JInfinity]
    by (simp add: infinite_rejection_def)
  from classified_error_shape [OF q] classified_error_shape [OF f] classified_error_shape [OF i]
    classified_error_shape [OF redis_down_sample] q f i redis_down_sample
  show ?thesis by simp
qed

section \<open>The limiter cache\<close>

text \<open>
  C5, as stated, fails: the cache holds at most 100 limiters, so a limiter can be evicted
  between two calls with identical arguments. After a first call with limit 3 and one
  hundred calls with the limits 4 to 103, a second call with limit 3 constructs a new
  limiter (the 102nd object) in place of the first one.
\<close>

theorem evicted_limiter_rebuilt:
  "fst (getLimiter (limit_args 3) (state_after []))
     = Inr \<lparr>ident = 0, opt_duration = JInt 60, opt_points = JInt 3\<rparr> \<and>
   fst (getLimiter (limit_args 3) (state_after (limit_args 3 # hundred_others)))
     = Inr \<lparr>ident = 101, opt_duration = JInt 60, opt_points = JInt 3\<rparr>"
proof
  have v: "within_bounds (limit_args 3)" by (rule limit_args_within) simp_all
  have "Map_get (limiterCache (state_after [])) (cacheKey (limit_args 3)) = None"
    by (simp add: state_after_def initial_state_def Map_get_def)
  from getLimiter_miss [OF v this]
  show "fst (getLimiter (limit_args 3) (state_after []))
     = Inr \<lparr>ident = 0, opt_duration = JInt 60, opt_points = JInt 3\<rparr>"
    by (simp add: state_after_def initial_state_def limit_args_fields)
  let ?S = "state_after (limit_args 3 # hundred_others)"
  have c: "constructed ?S = 101"
    unfolding one_and_hundred by (subst constructed_limit_args) simp_all
  have "Map_get (limiterCache ?S) (cacheKey (limit_args 3)) = None"
    using first_key_evicted by (simp add: Map_get_None cache_keys_def)
  from getLimiter_miss [OF v this] state_after_keys [of "limit_args 3 # hundred_others"]
  show "fst (getLimiter (limit_args 3) ?S)
     = Inr \<lparr>ident = 101, opt_duration = JInt 60, opt_points = JInt 3\<rparr>"
    by (simp add: cache_keys_def c limit_args_fields)
qed

text \<open>
  C5, amended. On one directive, for valid arguments: two \<^verbatim>\<open>getLimiter\<close> calls with
  identical arguments return the same limiter object, the second call constructing
  nothing, whenever fewer than 100 other distinct argument pairs were requested between
  them; two calls with differing arguments return different limiter objects.
\<close>

theorem limiter_sharing:
  assumes a: "within_bounds a" and b: "within_bounds b"
  shows "(a = b \<and> card (set (keys_used between) - {cacheKey a}) < MAX_LIMITER_CACHE_SIZE \<longrightarrow>
            fst (getLimiter b (state_after (before @ a # between)))
              = fst (getLimiter a (state_after before)) \<and>
            constructed (snd (getLimiter b (state_after (before @ a # between))))
              = constructed (state_after (before @ a # between))) \<and>
         (a \<noteq> b \<longrightarrow>
            (\<exists>l1 l2. fst (getLimiter a (state_after before)) = Inr l1 \<and>
               fst (getLimiter b (state_after (before @ a # between))) = Inr l2 \<and>
               ident l1 \<noteq> ident l2))"
proof -
  from getLimiter_returns_cached [OF a state_after_keys [of before]]
  obtain l1 where l1: "fst (getLimiter a (state_after before)) = Inr l1" by blast
  let ?S1 = "state_after (before @ [a])"
  let ?S2 = "state_after (before @ a # between)"
  have same: "fst (getLimiter b ?S2) = fst (getLimiter a (state_after before)) \<and>
      constructed (snd (getLimiter b ?S2)) = constructed ?S2"
    if ab: "a = b" and c: "card (set (keys_used between) - {cacheKey a}) < MAX_LIMITER_CACHE_SIZE"
  proof -
    have "Map_get (limiterCache ?S2) (cacheKey a) = Some l1"
      using a l1 c by (rule limiter_persists)
    from getLimiter_hit [OF a this] l1 show ?thesis
      unfolding ab [symmetric] by simp
  qed
  have differ: "\<exists>l1 l2. fst (getLimiter a (state_after before)) = Inr l1 \<and>
               fst (getLimiter b ?S2) = Inr l2 \<and> ident l1 \<noteq> ident l2"
    if ne: "a \<noteq> b"
  proof -
    from getLimiter_returns_cached [OF b state_after_keys [of "before @ a # between"]]
    obtain l2 where l2: "fst (getLimiter b ?S2) = Inr l2" by blast
    have e1: "(cacheKey a, l1) \<in> set (limiterCache ?S1)"
      using returned_is_cached [OF a l1] .
    have "(cacheKey b, l2) \<in> set (limiterCache (state_after ((before @ a # between) @ [b])))"
      using returned_is_cached [OF b l2] .
    then have "(cacheKey b, l2) \<in> set (limiterCache (state_after ((before @ [a]) @ (between @ [b]))))"
      by simp
    from entries_later [OF this]
    have e2: "(cacheKey b, l2) \<in> set (limiterCache ?S1) \<or> constructed ?S1 \<le> ident l2"
      by simp
    from idents_ok_reachable [of "before @ [a]"]
    have d: "distinct (map (\<lambda>e. ident (snd e)) (limiterCache ?S1))"
      and lt: "\<forall>e \<in> set (limiterCache ?S1). ident (snd e) < constructed ?S1"
      by (simp_all add: idents_ok_def)
    have "ident l1 \<noteq> ident l2"
    proof
      assume eq: "ident l1 = ident l2"
      from lt e1 have "ident l1 < constructed ?S1" by auto
      with e2 eq have m2: "(cacheKey b, l2) \<in> set (limiterCache ?S1)" by auto
      have "inj_on (\<lambda>e. ident (snd e)) (set (limiterCache ?S1))"
        using d by (simp add: distinct_map)
      from inj_onD [OF this _ e1 m2] eq have "cacheKey a = cacheKey b" by simp
      with cacheKey_inj [OF a b] ne show False by simp
    qed
    with l1 l2 show ?thesis by blast
  qed
  from same differ show ?thesis by blast
qed

theorem limiter_sharing_witness:
  "within_bounds sample_args \<and> within_bounds (limit_args 5) \<and>
   card (set (keys_used [limit_args 5]) - {cacheKey sample_args}) < MAX_LIMITER_CACHE_SIZE \<and>
   fst (getLimiter sample_args (state_after [])) = Inr first_limiter \<and>
   fst (getLimiter sample_args (state_after [sample_args, limit_args 5])) = Inr first_limiter \<and>
   constructed (snd (getLimiter sample_args (state_after [sample_args, limit_args 5])))
     = constructed (state_after [sample_args, limit_args 5]) \<and>
   sample_args \<noteq> limit_args 5 \<and>
   fst (getLimiter (limit_args 5) (state_after [sample_args, limit_args 5])) \<noteq> Inr first_limiter"
proof -
  have v5: "within_bounds (limit_args 5)" by (rule limit_args_within) simp_all
  have "card (set (keys_used [limit_args 5]) - {cacheKey sample_args})
      \<le> card (set (keys_used [limit_args 5]))"
    by (intro card_mono) auto
  also have "\<dots> \<le> length (keys_used [limit_args 5])" by (rule card_length)
  also have "\<dots> < MAX_LIMITER_CACHE_SIZE"
    by (simp add: keys_used_def MAX_LIMITER_CACHE_SIZE_def)
  finally have c: "card (set (keys_used [limit_args 5]) - {cacheKey sample_args})
      < MAX_LIMITER_CACHE_SIZE" .
  have ne: "sample_args \<noteq> limit_args 5"
    by (simp add: sample_args_def limit_args_def)
  have f: "fst (getLimiter sample_args (state_after [])) = Inr first_limiter"
    by (simp add: state_after_def getLimiter_sample)
  from limiter_sharing [OF within_sample within_sample, of "[limit_args 5]" "[]"]
    limiter_sharing [OF within_sample v5, of "[limit_args 5]" "[]"]
    within_sample v5 c ne f
  show ?thesis by auto
qed

text \<open>
  C6. After any sequence of \<^verbatim>\<open>getLimiter\<close> calls the cache holds at most 100 entries,
  and its keys are the (at most 100) most recently used keys, least recently used
  first. A further valid call makes its entry the last, most recently used one; when
  its key is new and the cache is full, exactly the first, least recently used entry is
  removed; otherwise no entry is removed.
\<close>

theorem lru_cache:
  "Map_size (limiterCache (state_after calls)) \<le> MAX_LIMITER_CACHE_SIZE \<and>
   cache_keys (state_after calls) = most_recent MAX_LIMITER_CACHE_SIZE (keys_used calls) \<and>
   (within_bounds args \<longrightarrow>
      (\<exists>limiter. fst (getLimiter args (state_after calls)) = Inr limiter \<and>
         last (limiterCache (snd (getLimiter args (state_after calls)))) = (cacheKey args, limiter) \<and>
         (if cacheKey args \<notin> set (cache_keys (state_after calls)) \<and>
             Map_size (limiterCache (state_after calls)) = MAX_LIMITER_CACHE_SIZE
          then limiterCache (snd (getLimiter args (state_after calls)))
                 = tl (limiterCache (state_after calls)) @ [(cacheKey args, limiter)]
          else set (limiterCache (state_after calls))
                 \<subseteq> set (limiterCache (snd (getLimiter args (state_after calls)))))))"
proof (intro conjI impI)
  show "Map_size (limiterCache (state_after calls)) \<le> MAX_LIMITER_CACHE_SIZE"
    by (rule state_after_size)
next
  show "cache_keys (state_after calls) = most_recent MAX_LIMITER_CACHE_SIZE (keys_used calls)"
    unfolding state_after_def by (rule cache_keys_run)
next
  assume v: "within_bounds args"
  let ?S = "state_after calls"
  let ?S' = "snd (getLimiter args ?S)"
  let ?k = "cacheKey args"
  have dk: "distinct (map fst (limiterCache ?S))"
    using state_after_keys(1) [of calls] by (simp add: cache_keys_def)
  from getLimiter_step_cases [OF v state_after_keys [of calls]]
  show "\<exists>limiter. fst (getLimiter args ?S) = Inr limiter \<and>
         last (limiterCache ?S') = (?k, limiter) \<and>
         (if ?k \<notin> set (cache_keys ?S) \<and> Map_size (limiterCache ?S) = MAX_LIMITER_CACHE_SIZE
          then limiterCache ?S' = tl (limiterCache ?S) @ [(?k, limiter)]
          else set (limiterCache ?S) \<subseteq> set (limiterCache ?S'))"
  proof (elim disjE exE conjE)
    fix limiter
    assume m: "(?k, limiter) \<in> set (limiterCache ?S)"
      and r: "fst (getLimiter args ?S) = Inr limiter"
      and c: "limiterCache ?S' = filter (\<lambda>e. fst e \<noteq> ?k) (limiterCache ?S) @ [(?k, limiter)]"
    have "?k \<in> set (cache_keys ?S)" using m by (force simp: cache_keys_def)
    moreover have "set (limiterCache ?S) \<subseteq> set (limiterCache ?S')"
    proof
      fix e assume e: "e \<in> set (limiterCache ?S)"
      show "e \<in> set (limiterCache ?S')"
      proof (cases "fst e = ?k")
        case True
        then have "(?k, snd e) \<in> set (limiterCache ?S)" using e by (cases e) simp
        from eq_value_of_key [OF dk this m] True have "e = (?k, limiter)" by (cases e) simp
        then show ?thesis by (simp add: c)
      next
        case False
        with e show ?thesis by (simp add: c)
      qed
    qed
    ultimately show ?thesis using r c by auto
  next
    fix limiter old
    assume n: "?k \<notin> fst ` set (limiterCache ?S)"
      and r: "fst (getLimiter args ?S) = Inr limiter"
      and o: "old = (if MAX_LIMITER_CACHE_SIZE \<le> length (limiterCache ?S)
                     then tl (limiterCache ?S) else limiterCache ?S)"
      and c: "limiterCache ?S' = old @ [(?k, limiter)]"
    from n have "?k \<notin> set (cache_keys ?S)" by (simp add: cache_keys_def)
    then show ?thesis
      using r o c state_after_size [of calls] by (auto simp: Map_size_def)
  qed
qed

theorem lru_cache_witness:
  "within_bounds (limit_args 3) \<and>
   cacheKey (limit_args 3) \<notin> set (cache_keys (state_after hundred_others)) \<and>
   Map_size (limiterCache (state_after hundred_others)) = MAX_LIMITER_CACHE_SIZE \<and>
   fst (getLimiter (limit_args 3) (state_after hundred_others))
     = Inr \<lparr>ident = 100, opt_duration = JInt 60, opt_points = JInt 3\<rparr> \<and>
   limiterCache (snd (getLimiter (limit_args 3) (state_after hundred_others)))
     = tl (limiterCache (state_after hundred_others))
       @ [(cacheKey (limit_args 3), \<lparr>ident = 100, opt_duration = JInt 60, opt_points = JInt 3\<rparr>)]"
proof -
  let ?S = "state_after hundred_others"
  have v: "within_bounds (limit_args 3)" by (rule limit_args_within) simp_all
  have keys: "cache_keys ?S = map (\<lambda>n. cacheKey (limit_args n)) [4..<104]"
    unfolding hundred_others_def
    by (subst cache_keys_limit_args) (simp_all add: MAX_LIMITER_CACHE_SIZE_def)
  have k: "cacheKey (limit_args 3) \<notin> set (cache_keys ?S)"
    unfolding keys by (rule third_key_fresh)
  have "length (cache_keys ?S) = 100" unfolding keys by (simp only: length_map length_upt)
  then have n: "Map_size (limiterCache ?S) = MAX_LIMITER_CACHE_SIZE"
    by (simp add: Map_size_def cache_keys_def MAX_LIMITER_CACHE_SIZE_def)
  have c: "constructed ?S = 100"
    unfolding hundred_others_def by (subst constructed_limit_args) simp_all
  have "Map_get (limiterCache ?S) (cacheKey (limit_args 3)) = None"
    using k by (simp add: Map_get_None cache_keys_def)
  from getLimiter_miss [OF v this] state_after_keys [of hundred_others]
  have f: "fst (getLimiter (limit_args 3) ?S)
     = Inr \<lparr>ident = 100, opt_duration = JInt 60, opt_points = JInt 3\<rparr>"
    by (simp add: cache_keys_def c limit_args_fields)
  from lru_cache [of hundred_others "limit_args 3"] v k n f
  show ?thesis by auto
qed

end
